theory Spec2Isabelle
  imports Main
begin

section \<open>Memory model\<close>

text \<open>
  The shell of \<^verbatim>\<open>os1shell.c\<close> keeps its state in global arrays of pointers to
  heap blocks.  A pointer is \<open>Null\<close>, the address of a block, or the indeterminate
  content of an automatic array that was never written.  Every behaviour the C standard
  leaves undefined is a \<open>fault\<close> of the model.
\<close>

datatype fault = OutOfBounds | NullDeref | UseAfterFree | BufferOverrun | UninitRead

datatype ptr = Uninit | Null | Ptr nat

text \<open>
  A block of characters is a list of bytes, \<open>None\<close> for a byte that was never written.
  \<open>strs\<close> holds the character blocks (the input buffer of \<^verbatim>\<open>main\<close> and the history
  entries), \<open>pids\<close> the \<^verbatim>\<open>pid_t\<close> cells of the child list; \<open>brk\<close> is the next
  address \<^verbatim>\<open>malloc\<close> hands out (a block is never handed out twice), and a freed
  block leaves its heap.  \<open>out\<close> is what was written to standard output.
\<close>

record shell =
  strs :: "nat \<Rightarrow> char option list option"
  pids :: "nat \<Rightarrow> int option"
  brk :: nat
  history :: "ptr list"
  histInd :: int
  children :: "ptr list"
  numChildren :: int
  interrupted :: int
  out :: string

definition HISTORY_SIZE :: int where
  "HISTORY_SIZE = 20"

definition MAX_ARGS :: int where
  "MAX_ARGS = 10"

text \<open>The declared length of \<^verbatim>\<open>pid_t* children[32]\<close>.\<close>

definition CHILDREN_SIZE :: int where
  "CHILDREN_SIZE = 32"

text \<open>The 64 byte buffer \<^verbatim>\<open>buff\<close> of \<^verbatim>\<open>main\<close> lives at address 0.\<close>

definition buff :: nat where
  "buff = 0"

definition buffSize :: nat where
  "buffSize = 64"

text \<open>
  The state when \<^verbatim>\<open>main\<close> starts: the globals are zero-initialised, the buffer is
  allocated and holds nothing yet.
\<close>

definition shell_init :: shell where
  "shell_init =
     \<lparr>strs = (\<lambda>a. None)(buff := Some (replicate buffSize None)),
      pids = (\<lambda>a. None),
      brk = 1,
      history = replicate 20 Null,
      histInd = 0,
      children = replicate 32 Null,
      numChildren = 0,
      interrupted = 0,
      out = []\<rparr>"

section \<open>The list of background children\<close>

text \<open>
  \<^verbatim>\<open>addChild\<close>: a new cell receives the pid and is stored at
  \<^verbatim>\<open>children[numChildren++]\<close>.  The source has no test of the index; the store
  past the 32 declared entries is the fault \<open>OutOfBounds\<close>.  (The two
  \<^verbatim>\<open>sigprocmask\<close> calls change the signal mask only.)
\<close>

definition addChild :: "int \<Rightarrow> shell \<Rightarrow> fault + shell" where
  "addChild pid s =
     (let child = brk s;
          s1 = s\<lparr>pids := (pids s)(child := Some pid), brk := Suc (brk s)\<rparr>;
          n = numChildren s1
      in if 0 \<le> n \<and> n < CHILDREN_SIZE
         then Inr (s1\<lparr>children := (children s1)[nat n := Ptr child], numChildren := n + 1\<rparr>)
         else Inl OutOfBounds)"

text \<open>
  Reading \<^verbatim>\<open>*(children[i])\<close>: the index must be inside the array, the entry a
  pointer, and its cell still allocated.
\<close>

definition child_at :: "shell \<Rightarrow> int \<Rightarrow> fault + (nat \<times> int)" where
  "child_at s i =
     (if i < 0 \<or> CHILDREN_SIZE \<le> i then Inl OutOfBounds
      else case children s ! nat i of
             Uninit \<Rightarrow> Inl UninitRead
           | Null \<Rightarrow> Inl NullDeref
           | Ptr a \<Rightarrow> (case pids s a of None \<Rightarrow> Inl UseAfterFree | Some v \<Rightarrow> Inr (a, v)))"

text \<open>
  The loop of \<^verbatim>\<open>removeChild\<close>.  \<open>openIndex\<close> is the local of that name: the source
  never initialises it, so its first value is a parameter.  The loop bound
  \<^verbatim>\<open>numChildren\<close> is read again at every test, after the decrement of the matching
  branch.
\<close>

function removeChild_loop :: "int \<Rightarrow> int \<Rightarrow> int \<Rightarrow> shell \<Rightarrow> fault + shell" where
  "removeChild_loop pid openIndex i s =
     (if i < numChildren s then
        (case child_at s i of
           Inl f \<Rightarrow> Inl f
         | Inr (a, v) \<Rightarrow>
             if v = pid then
               removeChild_loop pid i (i + 1)
                 (s\<lparr>pids := (pids s)(a := None), numChildren := numChildren s - 1\<rparr>)
             else if openIndex \<noteq> 0 then
               (if i - 1 < 0 then Inl OutOfBounds
                else removeChild_loop pid openIndex (i + 1)
                       (s\<lparr>children := (children s)[nat (i - 1) := children s ! nat i]\<rparr>))
             else removeChild_loop pid openIndex (i + 1) s)
      else Inr s)"
  by pat_completeness auto
termination
  by (relation "measure (\<lambda>(pid, openIndex, i, s). nat (numChildren s - i))") auto

declare removeChild_loop.simps [simp del]

definition removeChild :: "int \<Rightarrow> int \<Rightarrow> shell \<Rightarrow> fault + shell" where
  "removeChild openIndex0 pid s = removeChild_loop pid openIndex0 0 s"

text \<open>
  \<^verbatim>\<open>cleanup\<close> walks the first \<^verbatim>\<open>numChildren\<close> entries and sends each pid a
  \<^verbatim>\<open>SIGKILL\<close>; the result is the list of pids signalled.  It is the only reader of
  the list, so it tells which children the shell tracks.
\<close>

function cleanup_loop :: "int \<Rightarrow> shell \<Rightarrow> fault + int list" where
  "cleanup_loop i s =
     (if i < numChildren s then
        (case child_at s i of
           Inl f \<Rightarrow> Inl f
         | Inr (a, v) \<Rightarrow>
             (case cleanup_loop (i + 1) s of Inl f \<Rightarrow> Inl f | Inr ks \<Rightarrow> Inr (v # ks)))
      else Inr [])"
  by pat_completeness auto
termination
  by (relation "measure (\<lambda>(i, s). nat (numChildren s - i))") auto

declare cleanup_loop.simps [simp del]

definition cleanup :: "shell \<Rightarrow> fault + int list" where
  "cleanup s = (if numChildren s > 0 then cleanup_loop 0 s else Inr [])"

text \<open>A run of \<^verbatim>\<open>addChild\<close> calls, stopped by the first fault.\<close>

fun addChildren :: "int list \<Rightarrow> shell \<Rightarrow> fault + shell" where
  "addChildren [] s = Inr s"
| "addChildren (p # ps) s =
     (case addChild p s of Inl f \<Rightarrow> Inl f | Inr s' \<Rightarrow> addChildren ps s')"

section \<open>C strings\<close>

abbreviation NUL :: char where
  "NUL \<equiv> CHR 0x00"

abbreviation LF :: char where
  "LF \<equiv> CHR 0x0A"

abbreviation CR :: char where
  "CR \<equiv> CHR 0x0D"

text \<open>
  The string that starts at the head of a run of bytes: the bytes before the first
  \<open>NUL\<close>.  Running off the block, or into a byte never written, is a fault.
\<close>

fun c_str :: "char option list \<Rightarrow> fault + string" where
  "c_str [] = Inl OutOfBounds"
| "c_str (None # bs) = Inl UninitRead"
| "c_str (Some c # bs) =
     (if c = NUL then Inr []
      else case c_str bs of Inl f \<Rightarrow> Inl f | Inr cs \<Rightarrow> Inr (c # cs))"

text \<open>\<^verbatim>\<open>strchr\<close>: the offset of the first \<open>ch\<close> of the string, if any.\<close>

fun strchr :: "char option list \<Rightarrow> char \<Rightarrow> fault + nat option" where
  "strchr [] ch = Inl OutOfBounds"
| "strchr (None # bs) ch = Inl UninitRead"
| "strchr (Some c # bs) ch =
     (if c = ch then Inr (Some 0)
      else if c = NUL then Inr None
      else case strchr bs ch of Inl f \<Rightarrow> Inl f | Inr r \<Rightarrow> Inr (map_option Suc r))"

text \<open>
  \<^verbatim>\<open>strspn\<close> and \<^verbatim>\<open>strcspn\<close>: the length of the longest prefix of the string made
  of delimiters, and of none.
\<close>

fun strspn :: "char option list \<Rightarrow> string \<Rightarrow> fault + nat" where
  "strspn [] ds = Inl OutOfBounds"
| "strspn (None # bs) ds = Inl UninitRead"
| "strspn (Some c # bs) ds =
     (if c \<noteq> NUL \<and> c \<in> set ds
      then case strspn bs ds of Inl f \<Rightarrow> Inl f | Inr n \<Rightarrow> Inr (Suc n)
      else Inr 0)"

fun strcspn :: "char option list \<Rightarrow> string \<Rightarrow> fault + nat" where
  "strcspn [] ds = Inl OutOfBounds"
| "strcspn (None # bs) ds = Inl UninitRead"
| "strcspn (Some c # bs) ds =
     (if c \<noteq> NUL \<and> c \<notin> set ds
      then case strcspn bs ds of Inl f \<Rightarrow> Inl f | Inr n \<Rightarrow> Inr (Suc n)
      else Inr 0)"

text \<open>
  \<^verbatim>\<open>strtok\<close> on the block \<open>bs\<close>, scanning from offset \<open>p\<close> (the argument of the
  first call, the saved pointer of the later ones): it skips the delimiters, and at the
  end of the string returns no token; otherwise the token runs to the next delimiter,
  which is overwritten with \<open>NUL\<close>.  The result is the token's offset, the block and the
  saved pointer.
\<close>

definition strtok :: "char option list \<Rightarrow> nat \<Rightarrow> string \<Rightarrow> fault + (nat option \<times> char option list \<times> nat)" where
  "strtok bs p ds =
     (case strspn (drop p bs) ds of
        Inl f \<Rightarrow> Inl f
      | Inr k \<Rightarrow>
          let t = p + k in
          if bs ! t = Some NUL then Inr (None, bs, t)
          else (case strcspn (drop t bs) ds of
                  Inl f \<Rightarrow> Inl f
                | Inr m \<Rightarrow>
                    let e = t + m in
                    if bs ! e = Some NUL then Inr (Some t, bs, e)
                    else Inr (Some t, bs[e := Some NUL], e + 1)))"

section \<open>The command history\<close>

text \<open>\<^verbatim>\<open>free\<close> of a history entry; \<^verbatim>\<open>free(NULL)\<close> does nothing.\<close>

definition free_str :: "ptr \<Rightarrow> shell \<Rightarrow> fault + shell" where
  "free_str p s =
     (case p of
        Uninit \<Rightarrow> Inl UninitRead
      | Null \<Rightarrow> Inr s
      | Ptr a \<Rightarrow> (case strs s a of
                    None \<Rightarrow> Inl UseAfterFree
                  | Some bs \<Rightarrow> Inr (s\<lparr>strs := (strs s)(a := None)\<rparr>)))"

text \<open>
  \<^verbatim>\<open>recordcmd(cmd, sz)\<close>: \<open>cmd\<close> is the address of the block that holds the command.
  A block of \<open>sz\<close> bytes is allocated, \<^verbatim>\<open>strcpy\<close> copies the string and its
  terminator into it (a string of \<open>sz\<close> characters or more overruns the block), the entry
  under the cursor is freed and replaced, and the cursor moves on, back to 0 after the
  last slot.
\<close>

definition recordcmd :: "nat \<Rightarrow> int \<Rightarrow> shell \<Rightarrow> fault + shell" where
  "recordcmd cmd sz s =
     (if histInd s < 0 \<or> HISTORY_SIZE \<le> histInd s then Inl OutOfBounds
      else
        let old = history s ! nat (histInd s);
            entry = brk s
        in case strs s cmd of
             None \<Rightarrow> Inl UseAfterFree
           | Some bs \<Rightarrow>
               (case c_str bs of
                  Inl f \<Rightarrow> Inl f
                | Inr line \<Rightarrow>
                    if sz < int (length line) + 1 then Inl BufferOverrun
                    else
                      let block = map Some line @ Some NUL # replicate (nat sz - length line - 1) None;
                          s1 = s\<lparr>strs := (strs s)(entry := Some block), brk := Suc (brk s)\<rparr>
                      in case free_str old s1 of
                           Inl f \<Rightarrow> Inl f
                         | Inr s2 \<Rightarrow>
                             let s3 = s2\<lparr>history := (history s2)[nat (histInd s2) := Ptr entry]\<rparr>;
                                 h = histInd s3 + 1
                             in Inr (s3\<lparr>histInd := (if h > HISTORY_SIZE - 1 then 0 else h)\<rparr>)))"

text \<open>
  What one round of the loop of \<^verbatim>\<open>printHistory\<close> prints for the slot \<open>printInd\<close>:
  nothing for a \<open>Null\<close> entry, the entry and a line feed otherwise.
\<close>

definition print_slot :: "shell \<Rightarrow> int \<Rightarrow> fault + string" where
  "print_slot s printInd =
     (if printInd < 0 \<or> HISTORY_SIZE \<le> printInd then Inl OutOfBounds
      else case history s ! nat printInd of
             Uninit \<Rightarrow> Inl UninitRead
           | Null \<Rightarrow> Inr []
           | Ptr a \<Rightarrow>
               (case strs s a of
                  None \<Rightarrow> Inl UseAfterFree
                | Some bs \<Rightarrow> (case c_str bs of Inl f \<Rightarrow> Inl f | Inr line \<Rightarrow> Inr (line @ [LF]))))"

text \<open>
  The \<^verbatim>\<open>do ... while\<close> loop of \<^verbatim>\<open>printHistory\<close>.  \<open>visited\<close> collects the values
  that \<open>printInd\<close> takes in the loop body, \<open>text\<close> what was printed so far.  The loop
  ends when the cursor is back at \<^verbatim>\<open>histInd\<close>; the result is \<open>None\<close> when it never is.
\<close>

partial_function (option) printHistory_loop :: "shell \<Rightarrow> int \<Rightarrow> int list \<Rightarrow> string \<Rightarrow> (fault + int list \<times> string) option" where
  "printHistory_loop s printInd visited text =
     (case print_slot s printInd of
        Inl f \<Rightarrow> Some (Inl f)
      | Inr line \<Rightarrow>
          let printInd' = (if printInd + 1 > HISTORY_SIZE - 1 then 0 else printInd + 1)
          in if printInd' \<noteq> histInd s
             then printHistory_loop s printInd' (visited @ [printInd]) (text @ line)
             else Some (Inr (visited @ [printInd], text @ line)))"

declare printHistory_loop.simps [code]

definition printHistory :: "shell \<Rightarrow> (fault + shell) option" where
  "printHistory s =
     (case printHistory_loop s (histInd s) [] [LF] of
        None \<Rightarrow> None
      | Some (Inl f) \<Rightarrow> Some (Inl f)
      | Some (Inr (visited, text)) \<Rightarrow> Some (Inr (s\<lparr>out := out s @ text\<rparr>)))"

text \<open>
  The state in which \<^verbatim>\<open>main\<close> calls \<^verbatim>\<open>recordcmd\<close>: the line is in the buffer, its
  line feed replaced by the terminator.
\<close>

definition store_line :: "string \<Rightarrow> shell \<Rightarrow> shell" where
  "store_line line s =
     s\<lparr>strs := (strs s)(buff :=
          map_option (\<lambda>bs. map Some line @ Some NUL # drop (Suc (length line)) bs) (strs s buff))\<rparr>"

text \<open>
  Recording a line as \<^verbatim>\<open>main\<close> does: \<open>sz\<close> is the number of bytes read, the line and
  its line feed.
\<close>

definition record_line :: "string \<Rightarrow> shell \<Rightarrow> fault + shell" where
  "record_line line s = recordcmd buff (int (length line) + 1) (store_line line s)"

fun record_lines :: "string list \<Rightarrow> shell \<Rightarrow> fault + shell" where
  "record_lines [] s = Inr s"
| "record_lines (l # ls) s =
     (case record_line l s of Inl f \<Rightarrow> Inl f | Inr s' \<Rightarrow> record_lines ls s')"

section \<open>The command dispatcher\<close>

text \<open>
  \<^verbatim>\<open>char* tokens[MAX_ARGS]\<close> is an automatic array of ten pointers into the command
  block; \<open>Ptr t\<close> is the address of the byte at offset \<open>t\<close> of that block.

  The loop of \<^verbatim>\<open>execcmd\<close> that fills it: while \<^verbatim>\<open>i < MAX_ARGS\<close> and the last
  \<^verbatim>\<open>strtok\<close> gave a token, store the token, ask for the next one (the delimiter is
  now the space alone) and count.
\<close>

function tokenize_loop :: "ptr list \<Rightarrow> int \<Rightarrow> nat option \<Rightarrow> char option list \<Rightarrow> nat \<Rightarrow> fault + (ptr list \<times> int \<times> char option list)" where
  "tokenize_loop tokens i token bs save =
     (case token of
        None \<Rightarrow> Inr (tokens, i, bs)
      | Some t \<Rightarrow>
          if i < MAX_ARGS then
            (if i < 0 then Inl OutOfBounds
             else case strtok bs save [CHR '' ''] of
                    Inl f \<Rightarrow> Inl f
                  | Inr (token', bs', save') \<Rightarrow>
                      tokenize_loop (tokens[nat i := Ptr t]) (i + 1) token' bs' save')
          else Inr (tokens, i, bs))"
  by pat_completeness auto
termination
  by (relation "measure (\<lambda>(tokens, i, token, bs, save). nat (MAX_ARGS - i))") auto

declare tokenize_loop.simps [simp del]

text \<open>
  Lines 148 to 157 of \<^verbatim>\<open>execcmd\<close>: the first \<^verbatim>\<open>strtok\<close> (delimiters space,
  carriage return and line feed), the loop, and the store \<^verbatim>\<open>tokens[i] = NULL\<close>,
  which the source makes without a test of \<open>i\<close>.  The result is the array, the count
  \<open>i\<close> and the command block as \<^verbatim>\<open>strtok\<close> left it.
\<close>

definition execcmd_tokens :: "char option list \<Rightarrow> fault + (ptr list \<times> int \<times> char option list)" where
  "execcmd_tokens bs =
     (case strtok bs 0 [CHR '' '', CR, LF] of
        Inl f \<Rightarrow> Inl f
      | Inr (token, bs1, save) \<Rightarrow>
          (case tokenize_loop (replicate 10 Uninit) 0 token bs1 save of
             Inl f \<Rightarrow> Inl f
           | Inr (tokens, i, bs2) \<Rightarrow>
               if 0 \<le> i \<and> i < MAX_ARGS then Inr (tokens[nat i := Null], i, bs2)
               else Inl OutOfBounds))"

text \<open>Using \<^verbatim>\<open>tokens[k]\<close> as the address of a string.\<close>

definition token_at :: "ptr list \<Rightarrow> int \<Rightarrow> fault + nat" where
  "token_at tokens k =
     (if k < 0 \<or> MAX_ARGS \<le> k then Inl OutOfBounds
      else case tokens ! nat k of
             Uninit \<Rightarrow> Inl UninitRead
           | Null \<Rightarrow> Inl NullDeref
           | Ptr t \<Rightarrow> Inr t)"

definition byte_at :: "char option list \<Rightarrow> nat \<Rightarrow> fault + char" where
  "byte_at bs n =
     (if length bs \<le> n then Inl OutOfBounds
      else case bs ! n of None \<Rightarrow> Inl UninitRead | Some c \<Rightarrow> Inr c)"

text \<open>
  Lines 159 to 167 of \<^verbatim>\<open>execcmd\<close>: if the last character of \<^verbatim>\<open>tokens[0]\<close> is
  \<open>&\<close>, that character is overwritten with \<open>NUL\<close>; else if \<^verbatim>\<open>tokens[i-1]\<close> is the
  one-character string \<open>&\<close>, that entry becomes \<^verbatim>\<open>NULL\<close>.  Either way
  \<^verbatim>\<open>background\<close> is set.  The result is the array, the block and \<^verbatim>\<open>background\<close>.
\<close>

definition execcmd_marker :: "ptr list \<Rightarrow> int \<Rightarrow> char option list \<Rightarrow> fault + (ptr list \<times> char option list \<times> int)" where
  "execcmd_marker tokens i bs =
     (case token_at tokens 0 of
        Inl f \<Rightarrow> Inl f
      | Inr t0 \<Rightarrow>
          (case c_str (drop t0 bs) of
             Inl f \<Rightarrow> Inl f
           | Inr w0 \<Rightarrow>
               if length w0 = 0 then Inl OutOfBounds
               else if last w0 = CHR ''&''
               then Inr (tokens, bs[t0 + length w0 - 1 := Some NUL], 1)
               else (case token_at tokens (i - 1) of
                       Inl f \<Rightarrow> Inl f
                     | Inr t1 \<Rightarrow>
                         (case byte_at bs t1 of
                            Inl f \<Rightarrow> Inl f
                          | Inr c \<Rightarrow>
                              if c = CHR ''&'' then
                                (case c_str (drop t1 bs) of
                                   Inl f \<Rightarrow> Inl f
                                 | Inr wl \<Rightarrow>
                                     if length wl = 1
                                     then Inr (tokens[nat (i - 1) := Null], bs, 1)
                                     else Inr (tokens, bs, 0))
                              else Inr (tokens, bs, 0)))))"

text \<open>
  The argument vector \<^verbatim>\<open>execvp\<close> reads from \<^verbatim>\<open>tokens\<close>: the strings up to the
  first \<^verbatim>\<open>NULL\<close> entry.
\<close>

fun argv_of :: "ptr list \<Rightarrow> char option list \<Rightarrow> fault + string list" where
  "argv_of [] bs = Inl OutOfBounds"
| "argv_of (Uninit # ps) bs = Inl UninitRead"
| "argv_of (Null # ps) bs = Inr []"
| "argv_of (Ptr t # ps) bs =
     (case c_str (drop t bs) of
        Inl f \<Rightarrow> Inl f
      | Inr w \<Rightarrow> (case argv_of ps bs of Inl f \<Rightarrow> Inl f | Inr ws \<Rightarrow> Inr (w # ws)))"

text \<open>
  \<^verbatim>\<open>while( pid != wait(&status) );\<close> where \<open>waits n\<close> is what the \<open>n\<close>-th call of
  \<^verbatim>\<open>wait\<close> returns.  The result is the number of calls made, \<open>None\<close> when the loop
  never ends.
\<close>

partial_function (option) wait_loop :: "int \<Rightarrow> (nat \<Rightarrow> int) \<Rightarrow> nat \<Rightarrow> nat option" where
  "wait_loop pid waits n =
     (if pid \<noteq> waits n then wait_loop pid waits (Suc n) else Some (Suc n))"

declare wait_loop.simps [code]

text \<open>
  How a call of \<^verbatim>\<open>execcmd\<close> ends: it returns \<open>ret\<close> in the shell, after \<open>n\<close> calls
  of \<^verbatim>\<open>wait\<close>, or it is the child and calls \<^verbatim>\<open>execvp(file, argv)\<close>.
\<close>

datatype exec = Returned int shell nat | Execvp string "string list"

text \<open>
  \<^verbatim>\<open>execcmd(cmd)\<close>, with the value \<open>fork_ret\<close> that \<^verbatim>\<open>fork\<close> returns in the process
  followed.  The messages to standard error are not kept.
\<close>

definition execcmd :: "int \<Rightarrow> (nat \<Rightarrow> int) \<Rightarrow> nat \<Rightarrow> shell \<Rightarrow> (fault + exec) option" where
  "execcmd fork_ret waits cmd s =
     (case strs s cmd of
        None \<Rightarrow> Some (Inl UseAfterFree)
      | Some bs \<Rightarrow>
          (case execcmd_tokens bs of
             Inl f \<Rightarrow> Some (Inl f)
           | Inr (tokens, i, bs1) \<Rightarrow>
               (case execcmd_marker tokens i bs1 of
                  Inl f \<Rightarrow> Some (Inl f)
                | Inr (tokens', bs2, background) \<Rightarrow>
                    let s1 = s\<lparr>strs := (strs s)(cmd := Some bs2)\<rparr> in
                    if 0 > fork_ret then Some (Inr (Returned (- 1) s1 0))
                    else if 0 = fork_ret then
                      (case token_at tokens' 0 of
                         Inl f \<Rightarrow> Some (Inl f)
                       | Inr t0 \<Rightarrow>
                           (case c_str (drop t0 bs2) of
                              Inl f \<Rightarrow> Some (Inl f)
                            | Inr file \<Rightarrow>
                                (case argv_of tokens' bs2 of
                                   Inl f \<Rightarrow> Some (Inl f)
                                 | Inr argv \<Rightarrow> Some (Inr (Execvp file argv)))))
                    else if background = 0 then
                      (case wait_loop fork_ret waits 0 of
                         None \<Rightarrow> None
                       | Some n \<Rightarrow> Some (Inr (Returned 1 s1 n)))
                    else
                      (case addChild fork_ret s1 of
                         Inl f \<Rightarrow> Some (Inl f)
                       | Inr s2 \<Rightarrow> Some (Inr (Returned 1 s2 0))))))"

section \<open>The signal handler\<close>

text \<open>The signal numbers of \<^verbatim>\<open>signal.h\<close> on Linux.\<close>

definition SIGINT :: int where
  "SIGINT = 2"

definition SIGCHLD :: int where
  "SIGCHLD = 17"

text \<open>
  The loop \<^verbatim>\<open>while( (pid = waitpid(-1, &status, WNOHANG)) > 0 ) removeChild(pid);\<close>
  where \<open>exited\<close> lists what the successive calls of \<^verbatim>\<open>waitpid\<close> return: the pids
  of the children that have terminated and are not reaped yet.  When none is left
  \<^verbatim>\<open>waitpid\<close> returns 0 or -1 and the loop ends.
\<close>

fun reap_loop :: "int \<Rightarrow> int list \<Rightarrow> shell \<Rightarrow> fault + shell" where
  "reap_loop openIndex0 [] s = Inr s"
| "reap_loop openIndex0 (pid # exited) s =
     (if pid > 0
      then case removeChild openIndex0 pid s of
             Inl f \<Rightarrow> Inl f
           | Inr s' \<Rightarrow> reap_loop openIndex0 exited s'
      else Inr s)"

text \<open>What \<^verbatim>\<open>printf("%i")\<close> prints.\<close>

fun dec :: "nat \<Rightarrow> string" where
  "dec n = (if n < 10 then [char_of (48 + n)] else dec (n div 10) @ [char_of (48 + n mod 10)])"

definition show_int :: "int \<Rightarrow> string" where
  "show_int k = (if k < 0 then CHR ''-'' # dec (nat (- k)) else dec (nat k))"

definition sig_handler :: "int \<Rightarrow> int \<Rightarrow> int list \<Rightarrow> shell \<Rightarrow> (fault + shell) option" where
  "sig_handler sig openIndex0 exited s =
     (if sig = SIGINT then
        (case printHistory s of
           None \<Rightarrow> None
         | Some (Inl f) \<Rightarrow> Some (Inl f)
         | Some (Inr s') \<Rightarrow> Some (Inr (s'\<lparr>interrupted := 1\<rparr>)))
      else if sig = SIGCHLD then
        (case reap_loop openIndex0 exited s of
           Inl f \<Rightarrow> Some (Inl f)
         | Inr s' \<Rightarrow> Some (Inr (s'\<lparr>interrupted := 1\<rparr>)))
      else Some (Inr (s\<lparr>out := out s @ [LF] @ ''Recieved Signal:'' @ show_int sig @ [LF],
                         interrupted := 1\<rparr>)))"

section \<open>The read loop\<close>

definition SHELL_PROMPT :: string where
  "SHELL_PROMPT = ''OS1Shell -> ''"

text \<open>
  \<^verbatim>\<open>read(fileno(stdin), buff, buffSize)\<close>: \<open>Some data\<close> when the call delivers the
  bytes \<open>data\<close> (at most \<open>buffSize\<close> of them are taken; none at the end of the input),
  \<open>None\<close> when it fails and returns -1.  The bytes of the buffer past the ones read keep
  what they held.
\<close>

definition read_stdin :: "string option \<Rightarrow> shell \<Rightarrow> int \<times> shell" where
  "read_stdin input s =
     (case input of
        None \<Rightarrow> (- 1, s)
      | Some data \<Rightarrow>
          let d = take buffSize data
          in (int (length d),
              s\<lparr>strs := (strs s)(buff := map_option (\<lambda>bs. map Some d @ drop (length d) bs) (strs s buff))\<rparr>))"

text \<open>How one round of the loop of \<^verbatim>\<open>main\<close> ends.\<close>

datatype step = Continue shell | Child string "string list" | Exit "int list"

text \<open>The body of the loop, \<open>r\<close> bytes having been read.\<close>

definition main_body :: "int \<Rightarrow> int \<Rightarrow> (nat \<Rightarrow> int) \<Rightarrow> shell \<Rightarrow> (fault + step) option" where
  "main_body r fork_ret waits s =
     (let prompt = (\<lambda>s'. s'\<lparr>interrupted := 0, out := out s' @ SHELL_PROMPT\<rparr>) in
      if r > 1 \<and> interrupted s = 0 then
        (case strs s buff of
           None \<Rightarrow> Some (Inl UseAfterFree)
         | Some bs \<Rightarrow>
             (case strchr bs LF of
                Inl f \<Rightarrow> Some (Inl f)
              | Inr newline \<Rightarrow>
                  let bs1 = (case newline of None \<Rightarrow> bs | Some k \<Rightarrow> bs[k := Some NUL]);
                      s1 = s\<lparr>strs := (strs s)(buff := Some bs1)\<rparr>
                  in case recordcmd buff r s1 of
                       Inl f \<Rightarrow> Some (Inl f)
                     | Inr s2 \<Rightarrow>
                         (case execcmd fork_ret waits buff s2 of
                            None \<Rightarrow> None
                          | Some (Inl f) \<Rightarrow> Some (Inl f)
                          | Some (Inr (Execvp file argv)) \<Rightarrow> Some (Inr (Child file argv))
                          | Some (Inr (Returned ret s3 n)) \<Rightarrow> Some (Inr (Continue (prompt s3))))))
      else Some (Inr (Continue (prompt s))))"

text \<open>
  One round of \<^verbatim>\<open>while( (r = read(...)) > 0 || interrupted )\<close>: the read, the test,
  and the body or, when the loop ends, \<^verbatim>\<open>cleanup\<close>.
\<close>

definition main_step :: "string option \<Rightarrow> int \<Rightarrow> (nat \<Rightarrow> int) \<Rightarrow> shell \<Rightarrow> (fault + step) option" where
  "main_step input fork_ret waits s =
     (case read_stdin input s of
        (r, s1) \<Rightarrow>
          if r > 0 then main_body r fork_ret waits s1
          else if interrupted s1 = 0
          then (case cleanup s1 of Inl f \<Rightarrow> Some (Inl f) | Inr ks \<Rightarrow> Some (Inr (Exit ks)))
          else main_body r fork_ret waits s1)"

section \<open>Signals inside a round\<close>

text \<open>
  The handler is installed with an empty mask and runs between any two instructions of
  \<^verbatim>\<open>main\<close>.  It reads \<^verbatim>\<open>history\<close>, \<^verbatim>\<open>histInd\<close> and the history blocks (in
  \<^verbatim>\<open>printHistory\<close>) and writes the child list, \<^verbatim>\<open>interrupted\<close> and the output.  In a
  round of the loop only \<^verbatim>\<open>recordcmd\<close> writes what the handler reads, so
  \<^verbatim>\<open>recordcmd\<close> is taken apart into its steps, in the order of the source, with the two
  stores of line 112, \<^verbatim>\<open>++histInd\<close> and \<^verbatim>\<open>histInd = 0\<close>, as two steps:

  \<^item> \<open>Get_old\<close>: \<^verbatim>\<open>char* old = history[histInd];\<close>
  \<^item> \<open>Malloc\<close>: \<^verbatim>\<open>entry = (char*)malloc(sz * sizeof *entry);\<close>
  \<^item> \<open>Strcpy\<close>: \<^verbatim>\<open>strcpy(entry, cmd);\<close>
  \<^item> \<open>Free_old\<close>: \<^verbatim>\<open>free(old);\<close>
  \<^item> \<open>Store\<close>: \<^verbatim>\<open>history[histInd] = entry;\<close>
  \<^item> \<open>Incr\<close>: \<^verbatim>\<open>++histInd\<close>
  \<^item> \<open>Wrap\<close>: \<^verbatim>\<open>if( histInd > HISTORY_SIZE-1 ) histInd = 0;\<close>
\<close>

datatype rc_stmt = Get_old | Malloc | Strcpy | Free_old | Store | Incr | Wrap

text \<open>The frame of a call \<^verbatim>\<open>recordcmd(cmd, sz)\<close>: the shell, \<open>sz\<close> and the two locals.\<close>

record rec_frame =
  rc_shell :: shell
  rc_sz :: int
  rc_old :: ptr
  rc_entry :: ptr

fun recordcmd_stmt :: "rc_stmt \<Rightarrow> nat \<Rightarrow> rec_frame \<Rightarrow> fault + rec_frame" where
  "recordcmd_stmt Get_old cmd fr =
     (let s = rc_shell fr
      in if histInd s < 0 \<or> HISTORY_SIZE \<le> histInd s then Inl OutOfBounds
         else Inr (fr\<lparr>rc_old := history s ! nat (histInd s)\<rparr>))"
| "recordcmd_stmt Malloc cmd fr =
     (let s = rc_shell fr
      in Inr (fr\<lparr>rc_entry := Ptr (brk s),
                 rc_shell := s\<lparr>strs := (strs s)(brk s := Some (replicate (nat (rc_sz fr)) None)),
                               brk := Suc (brk s)\<rparr>\<rparr>))"
| "recordcmd_stmt Strcpy cmd fr =
     (let s = rc_shell fr
      in case rc_entry fr of
           Uninit \<Rightarrow> Inl UninitRead
         | Null \<Rightarrow> Inl NullDeref
         | Ptr e \<Rightarrow>
             (case strs s cmd of
                None \<Rightarrow> Inl UseAfterFree
              | Some bs \<Rightarrow>
                  (case c_str bs of
                     Inl f \<Rightarrow> Inl f
                   | Inr line \<Rightarrow>
                       (case strs s e of
                          None \<Rightarrow> Inl UseAfterFree
                        | Some block \<Rightarrow>
                            if length block < Suc (length line) then Inl BufferOverrun
                            else Inr (fr\<lparr>rc_shell := s\<lparr>strs := (strs s)(e :=
                                   Some (map Some line @ Some NUL # drop (Suc (length line)) block))\<rparr>\<rparr>)))))"
| "recordcmd_stmt Free_old cmd fr =
     (case free_str (rc_old fr) (rc_shell fr) of
        Inl f \<Rightarrow> Inl f
      | Inr s' \<Rightarrow> Inr (fr\<lparr>rc_shell := s'\<rparr>))"
| "recordcmd_stmt Store cmd fr =
     (let s = rc_shell fr
      in if histInd s < 0 \<or> HISTORY_SIZE \<le> histInd s then Inl OutOfBounds
         else Inr (fr\<lparr>rc_shell := s\<lparr>history := (history s)[nat (histInd s) := rc_entry fr]\<rparr>\<rparr>))"
| "recordcmd_stmt Incr cmd fr =
     (let s = rc_shell fr in Inr (fr\<lparr>rc_shell := s\<lparr>histInd := histInd s + 1\<rparr>\<rparr>))"
| "recordcmd_stmt Wrap cmd fr =
     (let s = rc_shell fr
      in if histInd s > HISTORY_SIZE - 1 then Inr (fr\<lparr>rc_shell := s\<lparr>histInd := 0\<rparr>\<rparr>) else Inr fr)"

definition recordcmd_body :: "rc_stmt list" where
  "recordcmd_body = [Get_old, Malloc, Strcpy, Free_old, Store, Incr, Wrap]"

text \<open>
  A signal that is handled: its number, the value that the uninitialised local
  \<^verbatim>\<open>openIndex\<close> of \<^verbatim>\<open>removeChild\<close> happens to hold, and what the calls of
  \<^verbatim>\<open>waitpid\<close> return.  \<open>handle_sigs\<close> runs the handler for each signal of a list, one
  after the other.
\<close>

type_synonym signal = "int \<times> int \<times> int list"

fun handle_sigs :: "signal list \<Rightarrow> shell \<Rightarrow> (fault + shell) option" where
  "handle_sigs [] s = Some (Inr s)"
| "handle_sigs ((sig, openIndex0, exited) # rest) s =
     (case sig_handler sig openIndex0 exited s of
        None \<Rightarrow> None
      | Some (Inl f) \<Rightarrow> Some (Inl f)
      | Some (Inr s') \<Rightarrow> handle_sigs rest s')"

text \<open>
  Running steps of \<^verbatim>\<open>recordcmd\<close> from the point \<open>k\<close> (the number of steps done so
  far): the signals \<open>sigs k\<close> are handled at the point \<open>k\<close>, before the next step.
\<close>

fun rc_run :: "rc_stmt list \<Rightarrow> nat \<Rightarrow> (nat \<Rightarrow> signal list) \<Rightarrow> nat \<Rightarrow> rec_frame \<Rightarrow> (fault + rec_frame) option" where
  "rc_run [] k sigs cmd fr = Some (Inr fr)"
| "rc_run (st # sts) k sigs cmd fr =
     (case handle_sigs (sigs k) (rc_shell fr) of
        None \<Rightarrow> None
      | Some (Inl f) \<Rightarrow> Some (Inl f)
      | Some (Inr s) \<Rightarrow>
          (case recordcmd_stmt st cmd (fr\<lparr>rc_shell := s\<rparr>) of
             Inl f \<Rightarrow> Some (Inl f)
           | Inr fr' \<Rightarrow> rc_run sts (Suc k) sigs cmd fr'))"

text \<open>
  A round of the loop up to the call \<^verbatim>\<open>recordcmd(buff, r)\<close>: the read, the two tests and
  the replacement of the line feed.  The round ends here (\<open>Inl\<close>) when the loop is left
  or the body is skipped; otherwise the result is the frame in which \<^verbatim>\<open>recordcmd\<close>
  starts.
\<close>

definition main_open :: "int \<Rightarrow> shell \<Rightarrow> fault + (step + rec_frame)" where
  "main_open r s =
     (if r > 1 \<and> interrupted s = 0 then
        (case strs s buff of
           None \<Rightarrow> Inl UseAfterFree
         | Some bs \<Rightarrow>
             (case strchr bs LF of
                Inl f \<Rightarrow> Inl f
              | Inr newline \<Rightarrow>
                  let bs1 = (case newline of None \<Rightarrow> bs | Some k \<Rightarrow> bs[k := Some NUL])
                  in Inr (Inr \<lparr>rc_shell = s\<lparr>strs := (strs s)(buff := Some bs1)\<rparr>, rc_sz = r,
                               rc_old = Uninit, rc_entry = Uninit\<rparr>)))
      else Inr (Inl (Continue (s\<lparr>interrupted := 0, out := out s @ SHELL_PROMPT\<rparr>))))"

definition main_enter :: "string option \<Rightarrow> shell \<Rightarrow> fault + (step + rec_frame)" where
  "main_enter input s =
     (case read_stdin input s of
        (r, s1) \<Rightarrow>
          if r > 0 then main_open r s1
          else if interrupted s1 = 0
          then (case cleanup s1 of Inl f \<Rightarrow> Inl f | Inr ks \<Rightarrow> Inr (Inl (Exit ks)))
          else main_open r s1)"

text \<open>
  The rest of the round, from the return of \<^verbatim>\<open>recordcmd\<close>: the signals of the point 7
  are handled before \<^verbatim>\<open>execcmd(buff)\<close> and those of the point 8 after it, before
  \<^verbatim>\<open>interrupted = 0\<close> and the prompt.
\<close>

definition main_close :: "int \<Rightarrow> (nat \<Rightarrow> int) \<Rightarrow> (nat \<Rightarrow> signal list) \<Rightarrow> shell \<Rightarrow> (fault + step) option" where
  "main_close fork_ret waits sigs s =
     (case handle_sigs (sigs 7) s of
        None \<Rightarrow> None
      | Some (Inl f) \<Rightarrow> Some (Inl f)
      | Some (Inr s2) \<Rightarrow>
          (case execcmd fork_ret waits buff s2 of
             None \<Rightarrow> None
           | Some (Inl f) \<Rightarrow> Some (Inl f)
           | Some (Inr (Execvp file argv)) \<Rightarrow> Some (Inr (Child file argv))
           | Some (Inr (Returned ret s3 n)) \<Rightarrow>
               (case handle_sigs (sigs 8) s3 of
                  None \<Rightarrow> None
                | Some (Inl f) \<Rightarrow> Some (Inl f)
                | Some (Inr s4) \<Rightarrow>
                    Some (Inr (Continue (s4\<lparr>interrupted := 0, out := out s4 @ SHELL_PROMPT\<rparr>))))))"

text \<open>
  One round of the loop in which signals are handled: \<open>sigs k\<close> for \<open>k\<close> from 0 to 6 at
  the points of \<^verbatim>\<open>recordcmd\<close>, \<open>sigs 7\<close> and \<open>sigs 8\<close> around \<^verbatim>\<open>execcmd\<close>.  A signal
  that arrives while \<^verbatim>\<open>main\<close> reads, tests or replaces the line feed, or inside
  \<^verbatim>\<open>execcmd\<close>, finds the history as it is at the next or the previous of these points.
  With no signal the round is \<open>main_step\<close>.
\<close>

definition main_round :: "string option \<Rightarrow> int \<Rightarrow> (nat \<Rightarrow> int) \<Rightarrow> (nat \<Rightarrow> signal list) \<Rightarrow> shell \<Rightarrow> (fault + step) option" where
  "main_round input fork_ret waits sigs s =
     (case main_enter input s of
        Inl f \<Rightarrow> Some (Inl f)
      | Inr (Inl st) \<Rightarrow> Some (Inr st)
      | Inr (Inr fr0) \<Rightarrow>
          (case rc_run recordcmd_body 0 sigs buff fr0 of
             None \<Rightarrow> None
           | Some (Inl f) \<Rightarrow> Some (Inl f)
           | Some (Inr fr) \<Rightarrow> main_close fork_ret waits sigs (rc_shell fr)))"


section \<open>Reachable states and invariants\<close>

text \<open>
  The states in which the shell is at the top of its loop, about to read: the initial
  state, the state after a round (with the signals handled inside the round), and the
  state after a signal handled while the shell waits in \<^verbatim>\<open>read\<close>.
\<close>

inductive reachable :: "shell \<Rightarrow> bool" where
  start: "reachable shell_init"
| round: "reachable s \<Longrightarrow> main_round input fork_ret waits sigs s = Some (Inr (Continue s')) \<Longrightarrow>
          reachable s'"
| signal: "reachable s \<Longrightarrow> sig_handler sig openIndex0 exited s = Some (Inr s') \<Longrightarrow>
           reachable s'"


text \<open>What a handler leaves of the history: all of it.\<close>

definition same_hist :: "shell \<Rightarrow> shell \<Rightarrow> bool" where
  "same_hist s s' \<longleftrightarrow>
     strs s' = strs s \<and> brk s' = brk s \<and> history s' = history s \<and> histInd s' = histInd s"

text \<open>Two frames of \<^verbatim>\<open>recordcmd\<close> with the same history and the same locals.\<close>

definition same_frame :: "rec_frame \<Rightarrow> rec_frame \<Rightarrow> bool" where
  "same_frame a b \<longleftrightarrow>
     same_hist (rc_shell a) (rc_shell b) \<and> rc_sz b = rc_sz a \<and> rc_old b = rc_old a \<and>
     rc_entry b = rc_entry a"

text \<open>
  The invariant of the history: the cursor is inside the array, and every entry is
  \<open>Null\<close> or the only pointer to a live block, other than the buffer, that holds a
  terminated string.
\<close>

definition hist_ok :: "shell \<Rightarrow> bool" where
  "hist_ok s \<longleftrightarrow>
     0 \<le> histInd s \<and> histInd s < HISTORY_SIZE \<and> length (history s) = 20 \<and> buff < brk s \<and>
     strs s buff \<noteq> None \<and>
     (\<forall>j<20. case history s ! j of
               Uninit \<Rightarrow> False
             | Null \<Rightarrow> True
             | Ptr a \<Rightarrow> a \<noteq> buff \<and> a < brk s \<and>
                 (\<exists>bs l. strs s a = Some bs \<and> c_str bs = Inr l) \<and>
                 (\<forall>k<20. history s ! k = Ptr a \<longrightarrow> k = j))"

text \<open>What the operations other than \<^verbatim>\<open>recordcmd\<close> leave of the history.\<close>

definition hist_frame :: "shell \<Rightarrow> shell \<Rightarrow> bool" where
  "hist_frame s s' \<longleftrightarrow>
     history s' = history s \<and> histInd s' = histInd s \<and> brk s \<le> brk s' \<and>
     (strs s' buff = None \<longrightarrow> strs s buff = None) \<and>
     (\<forall>a. a \<noteq> buff \<longrightarrow> strs s' a = strs s a)"

text \<open>
  The layout of the tokens in the command block: the strings \<open>ws\<close> start at the offsets
  \<open>os\<close>, none is empty, and each ends before the next one starts.
\<close>

definition laid_out :: "nat list \<Rightarrow> string list \<Rightarrow> char option list \<Rightarrow> bool" where
  "laid_out os ws bs \<longleftrightarrow>
     length os = length ws \<and>
     (\<forall>k<length os. c_str (drop (os ! k) bs) = Inr (ws ! k) \<and> ws ! k \<noteq> []) \<and>
     (\<forall>k<length os. \<forall>k'<length os. k < k' \<longrightarrow> os ! k + length (ws ! k) \<le> os ! k')"

section \<open>Properties of the child list\<close>

lemmas registry_defs =
  addChild_def shell_init_def Let_def CHILDREN_SIZE_def cleanup_def child_at_def removeChild_def
  removeChild_loop.simps cleanup_loop.simps

lemma addChild_count:
  "addChild p s = Inr s' \<Longrightarrow> numChildren s' = numChildren s + 1"
  by (auto simp: addChild_def Let_def split: if_splits)

lemma addChild_Inr_iff:
  "(\<exists>s'. addChild p s = Inr s') \<longleftrightarrow> 0 \<le> numChildren s \<and> numChildren s < 32"
  by (simp add: addChild_def Let_def CHILDREN_SIZE_def)

lemma addChild_Inl:
  "addChild p s = Inl f \<Longrightarrow> f = OutOfBounds"
  by (auto simp: addChild_def Let_def split: if_splits)

lemma addChildren_fits:
  "0 \<le> numChildren s \<Longrightarrow> numChildren s + int (length ps) \<le> 32 \<Longrightarrow>
   \<exists>s'. addChildren ps s = Inr s' \<and> numChildren s' = numChildren s + int (length ps)"
proof (induction ps arbitrary: s)
  case Nil
  then show ?case by simp
next
  case (Cons p ps)
  from Cons.prems have "0 \<le> numChildren s \<and> numChildren s < 32" by simp
  then obtain s1 where s1: "addChild p s = Inr s1"
    using addChild_Inr_iff by blast
  then have n1: "numChildren s1 = numChildren s + 1" by (rule addChild_count)
  with Cons.prems have "0 \<le> numChildren s1" "numChildren s1 + int (length ps) \<le> 32" by simp_all
  from Cons.IH [OF this] s1 n1 show ?case by auto
qed

lemma addChildren_overflow:
  "0 \<le> numChildren s \<Longrightarrow> numChildren s \<le> 32 \<Longrightarrow> 32 < numChildren s + int (length ps) \<Longrightarrow>
   addChildren ps s = Inl OutOfBounds"
proof (induction ps arbitrary: s)
  case Nil
  then show ?case by simp
next
  case (Cons p ps)
  show ?case
  proof (cases "addChild p s")
    case (Inl f)
    then show ?thesis using addChild_Inl by fastforce
  next
    case (Inr s1)
    then have "numChildren s1 = numChildren s + 1" by (rule addChild_count)
    moreover from Inr have "numChildren s < 32"
      using addChild_Inr_iff by blast
    ultimately have "0 \<le> numChildren s1" "numChildren s1 \<le> 32" "32 < numChildren s1 + int (length ps)"
      using Cons.prems by simp_all
    from Cons.IH [OF this] Inr show ?thesis by simp
  qed
qed

text \<open>
  C1.  The claim: after any sequence of register and unregister calls the list holds the
  set obtained by applying the calls in order, and unregister removes exactly the given
  pid and keeps every other one.  The code does not: with the children 1 and 2 registered
  in this order, \<^verbatim>\<open>removeChild(1)\<close> frees the cell of 1 and decrements the count, and
  the loop then ends before it reaches the entry of 2 (the bound it tests has just
  dropped to 1), so nothing is shifted.  The one entry still counted is the dangling
  pointer to the freed cell; the entry of child 2 lies beyond the count, and
  \<^verbatim>\<open>cleanup\<close> no longer reaches it.  This holds whatever \<open>openIndex\<close> held at first.
\<close>

theorem removeChild_first_loses_second:
  "case addChildren [1, 2] shell_init of
     Inl f \<Rightarrow> False
   | Inr s \<Rightarrow>
       cleanup s = Inr [1, 2] \<and>
       (case removeChild openIndex0 1 s of
          Inl f \<Rightarrow> False
        | Inr s' \<Rightarrow>
            numChildren s' = 1 \<and> children s' ! 0 = Ptr 1 \<and> pids s' 1 = None \<and>
            children s' ! 1 = Ptr 2 \<and> pids s' 2 = Some 2 \<and>
            cleanup s' = Inl UseAfterFree)"
  by (simp add: registry_defs)

text \<open>
  C3.  The claim: at least 32 children can be tracked, and every store of a register
  call stays inside the array.  The first half holds: 32 calls of \<^verbatim>\<open>addChild\<close> succeed.
  The 33rd stores \<^verbatim>\<open>children[32]\<close>, one entry past the array: \<^verbatim>\<open>addChild\<close> has no
  test, only the comment that announces the growth of the array.
\<close>

theorem addChild_33rd_out_of_bounds:
  "(\<exists>s. addChildren (map int [1..<33]) shell_init = Inr s \<and> numChildren s = 32) \<and>
   addChildren (map int [1..<34]) shell_init = Inl OutOfBounds"
proof -
  have n0: "numChildren shell_init = 0" by (simp add: shell_init_def)
  have "\<exists>s. addChildren (map int [1..<33]) shell_init = Inr s \<and>
     numChildren s = numChildren shell_init + int (length (map int [1..<33]))"
    by (rule addChildren_fits) (simp_all add: n0)
  moreover have "addChildren (map int [1..<34]) shell_init = Inl OutOfBounds"
    by (rule addChildren_overflow) (simp_all add: n0)
  ultimately show ?thesis by (simp add: n0)
qed

text \<open>
  C7.  The claim: the handler of the child-termination signal removes every reaped pid,
  so that no exited child stays registered.  The loop of the handler is as claimed, but
  each removal is the \<^verbatim>\<open>removeChild\<close> of C1.  With the children 1 and 2 registered and
  child 1 reaped, the handler returns with one entry counted, the dangling pointer to
  the freed cell of child 1, and the running child 2 out of reach.  When both have
  exited, the second \<^verbatim>\<open>removeChild\<close> reads that freed cell.
\<close>

theorem sig_handler_leaves_reaped_child:
  "case addChildren [1, 2] shell_init of
     Inl f \<Rightarrow> False
   | Inr s \<Rightarrow>
       (case sig_handler SIGCHLD openIndex0 [1] s of
          Some (Inr s') \<Rightarrow>
            numChildren s' = 1 \<and> children s' ! 0 = Ptr 1 \<and> pids s' 1 = None \<and>
            children s' ! 1 = Ptr 2 \<and> pids s' 2 = Some 2 \<and>
            cleanup s' = Inl UseAfterFree
        | _ \<Rightarrow> False) \<and>
       sig_handler SIGCHLD openIndex0 [1, 2] s = Some (Inl UseAfterFree)"
  by (simp add: registry_defs sig_handler_def SIGCHLD_def SIGINT_def)

section \<open>Properties of the dispatcher\<close>

lemmas dispatch_defs =
  main_step_def read_stdin_def main_body_def shell_init_def buff_def buffSize_def Let_def
  recordcmd_def HISTORY_SIZE_def free_str_def execcmd_def execcmd_tokens_def strtok_def
  MAX_ARGS_def execcmd_marker_def token_at_def byte_at_def tokenize_loop.simps

lemma c_str_Inr_nth:
  "c_str bs = Inr w \<Longrightarrow>
   length w < length bs \<and> bs ! length w = Some NUL \<and> (\<forall>j<length w. bs ! j = Some (w ! j)) \<and>
   NUL \<notin> set w"
proof (induction bs arbitrary: w rule: c_str.induct)
  case 1
  then show ?case by simp
next
  case (2 bs)
  then show ?case by simp
next
  case (3 c bs)
  show ?case
  proof (cases "c = NUL")
    case True
    with 3 show ?thesis by simp
  next
    case False
    with "3.prems" obtain cs where cs: "c_str bs = Inr cs" "w = c # cs"
      by (auto split: sum.splits)
    from "3.IH" [OF False cs(1)] have ih: "length cs < length bs" "bs ! length cs = Some NUL"
      "\<forall>j<length cs. bs ! j = Some (cs ! j)" "NUL \<notin> set cs" by simp_all
    have "\<forall>j<length w. (Some c # bs) ! j = Some (w ! j)"
    proof (intro allI impI)
      fix j assume "j < length w"
      with cs(2) ih(3) show "(Some c # bs) ! j = Some (w ! j)" by (cases j) simp_all
    qed
    with ih cs(2) False show ?thesis by simp
  qed
qed

lemma c_str_nth:
  "n < length bs \<Longrightarrow> bs ! n = Some NUL \<Longrightarrow> (\<forall>j<n. bs ! j = Some (w ! j)) \<Longrightarrow>
   length w = n \<Longrightarrow> NUL \<notin> set w \<Longrightarrow> c_str bs = Inr w"
proof (induction bs arbitrary: n w rule: c_str.induct)
  case 1
  then show ?case by simp
next
  case (2 bs)
  then show ?case by (cases n) auto
next
  case (3 c bs)
  show ?case
  proof (cases n)
    case 0
    with 3 show ?thesis by simp
  next
    case (Suc m)
    with "3.prems" obtain x xs where w: "w = x # xs" by (cases w) auto
    from "3.prems"(3) Suc w have c: "c = x" by auto
    with "3.prems"(5) w have cn: "c \<noteq> NUL" by auto
    have "c_str bs = Inr xs"
    proof (rule "3.IH" [OF cn])
      show "m < length bs" using "3.prems"(1) Suc by simp
      show "bs ! m = Some NUL" using "3.prems"(2) Suc by simp
      show "\<forall>j<m. bs ! j = Some (xs ! j)"
      proof (intro allI impI)
        fix j assume "j < m"
        then have "Suc j < n" using Suc by simp
        with "3.prems"(3) have "(Some c # bs) ! Suc j = Some (w ! Suc j)" by blast
        then show "bs ! j = Some (xs ! j)" using w by simp
      qed
      show "length xs = m" using "3.prems"(4) Suc w by simp
      show "NUL \<notin> set xs" using "3.prems"(5) w by simp
    qed
    with cn c w show ?thesis by simp
  qed
qed

lemma str_at_iff:
  "c_str (drop t bs) = Inr w \<longleftrightarrow>
     t + length w < length bs \<and> bs ! (t + length w) = Some NUL \<and>
     (\<forall>j<length w. bs ! (t + j) = Some (w ! j)) \<and> NUL \<notin> set w"
proof
  assume a: "c_str (drop t bs) = Inr w"
  from c_str_Inr_nth [OF a] have f: "length w < length (drop t bs)"
    "drop t bs ! length w = Some NUL" "\<forall>j<length w. drop t bs ! j = Some (w ! j)" "NUL \<notin> set w"
    by simp_all
  from f(1) have t: "t + length w < length bs" by simp
  then have "t \<le> length bs" by simp
  then have nd: "drop t bs ! j = bs ! (t + j)" for j by (rule nth_drop)
  from f t show "t + length w < length bs \<and> bs ! (t + length w) = Some NUL \<and>
     (\<forall>j<length w. bs ! (t + j) = Some (w ! j)) \<and> NUL \<notin> set w"
    by (simp add: nd)
next
  assume b: "t + length w < length bs \<and> bs ! (t + length w) = Some NUL \<and>
     (\<forall>j<length w. bs ! (t + j) = Some (w ! j)) \<and> NUL \<notin> set w"
  then have "t \<le> length bs" by simp
  then have nd: "drop t bs ! j = bs ! (t + j)" for j by (rule nth_drop)
  show "c_str (drop t bs) = Inr w"
  proof (rule c_str_nth [where n = "length w"])
    from b have "t + length w < length bs" by simp
    then show "length w < length (drop t bs)" by simp
    show "drop t bs ! length w = Some NUL" using b by (simp add: nd)
    show "\<forall>j<length w. drop t bs ! j = Some (w ! j)" using b by (simp add: nd)
    show "length w = length w" ..
    show "NUL \<notin> set w" using b by simp
  qed
qed

lemma strspn_Inr:
  "strspn bs ds = Inr k \<Longrightarrow>
   k < length bs \<and> (\<exists>c. bs ! k = Some c \<and> (c = NUL \<or> c \<notin> set ds)) \<and>
   (\<forall>j<k. \<exists>c. bs ! j = Some c \<and> c \<noteq> NUL \<and> c \<in> set ds)"
proof (induction bs ds arbitrary: k rule: strspn.induct)
  case (3 c bs ds)
  show ?case
  proof (cases "c \<noteq> NUL \<and> c \<in> set ds")
    case False
    with "3.prems" have "k = 0" by auto
    with False show ?thesis by auto
  next
    case True
    with "3.prems" obtain n where n: "strspn bs ds = Inr n" "k = Suc n"
      by (auto split: sum.splits)
    from "3.IH" [OF True n(1)] have ih: "n < length bs"
      "\<exists>c. bs ! n = Some c \<and> (c = NUL \<or> c \<notin> set ds)"
      "\<forall>j<n. \<exists>c. bs ! j = Some c \<and> c \<noteq> NUL \<and> c \<in> set ds" by simp_all
    have "\<forall>j<k. \<exists>c'. (Some c # bs) ! j = Some c' \<and> c' \<noteq> NUL \<and> c' \<in> set ds"
    proof (intro allI impI)
      fix j assume "j < k"
      with n(2) ih(3) True show "\<exists>c'. (Some c # bs) ! j = Some c' \<and> c' \<noteq> NUL \<and> c' \<in> set ds"
        by (cases j) simp_all
    qed
    with ih n(2) show ?thesis by simp
  qed
qed simp_all

lemma strcspn_Inr:
  "strcspn bs ds = Inr k \<Longrightarrow>
   k < length bs \<and> (\<exists>c. bs ! k = Some c \<and> (c = NUL \<or> c \<in> set ds)) \<and>
   (\<forall>j<k. \<exists>c. bs ! j = Some c \<and> c \<noteq> NUL \<and> c \<notin> set ds)"
proof (induction bs ds arbitrary: k rule: strcspn.induct)
  case (3 c bs ds)
  show ?case
  proof (cases "c \<noteq> NUL \<and> c \<notin> set ds")
    case False
    with "3.prems" have "k = 0" by auto
    with False show ?thesis by auto
  next
    case True
    with "3.prems" obtain n where n: "strcspn bs ds = Inr n" "k = Suc n"
      by (auto split: sum.splits)
    from "3.IH" [OF True n(1)] have ih: "n < length bs"
      "\<exists>c. bs ! n = Some c \<and> (c = NUL \<or> c \<in> set ds)"
      "\<forall>j<n. \<exists>c. bs ! j = Some c \<and> c \<noteq> NUL \<and> c \<notin> set ds" by simp_all
    have "\<forall>j<k. \<exists>c'. (Some c # bs) ! j = Some c' \<and> c' \<noteq> NUL \<and> c' \<notin> set ds"
    proof (intro allI impI)
      fix j assume "j < k"
      with n(2) ih(3) True show "\<exists>c'. (Some c # bs) ! j = Some c' \<and> c' \<noteq> NUL \<and> c' \<notin> set ds"
        by (cases j) simp_all
    qed
    with ih n(2) show ?thesis by simp
  qed
qed simp_all

lemma str_at_update:
  assumes "c_str (drop t bs) = Inr w" and "t + length w < e"
  shows "c_str (drop t (bs[e := x])) = Inr w"
proof -
  from assms(1) have f: "t + length w < length bs" "bs ! (t + length w) = Some NUL"
    "\<forall>j<length w. bs ! (t + j) = Some (w ! j)" "NUL \<notin> set w"
    unfolding str_at_iff by simp_all
  have "\<forall>j<length w. bs[e := x] ! (t + j) = Some (w ! j)"
  proof (intro allI impI)
    fix j assume "j < length w"
    with assms(2) have "t + j \<noteq> e" by simp
    with f(3) \<open>j < length w\<close> show "bs[e := x] ! (t + j) = Some (w ! j)" by simp
  qed
  moreover have "bs[e := x] ! (t + length w) = Some NUL" using f(2) assms(2) by simp
  ultimately show ?thesis unfolding str_at_iff using f(1,4) by simp
qed

lemma str_at_token:
  assumes "t + m < length bs" and "bs ! (t + m) = Some NUL"
    and "\<forall>j<m. \<exists>c. bs ! (t + j) = Some c \<and> c \<noteq> NUL"
  shows "\<exists>w. length w = m \<and> c_str (drop t bs) = Inr w"
proof -
  define w where "w = map (\<lambda>j. the (bs ! (t + j))) [0..<m]"
  have len: "length w = m" by (simp add: w_def)
  have nth: "bs ! (t + j) = Some (w ! j)" if "j < m" for j
    using assms(3) that by (auto simp: w_def)
  have "NUL \<notin> set w"
  proof
    assume "NUL \<in> set w"
    then obtain j where "j < m" "w ! j = NUL" using len by (auto simp: in_set_conv_nth)
    with nth [of j] assms(3) show False by auto
  qed
  with assms(1,2) nth len have "c_str (drop t bs) = Inr w"
    unfolding str_at_iff by simp
  with len show ?thesis by blast
qed

lemma strtok_spec:
  assumes "strtok bs p ds = Inr (tok, bs', p')"
  shows "length bs' = length bs \<and> p \<le> p' \<and>
         (\<forall>t w. t + length w \<le> p \<longrightarrow> c_str (drop t bs) = Inr w \<longrightarrow> c_str (drop t bs') = Inr w) \<and>
         (\<forall>t. tok = Some t \<longrightarrow>
              p \<le> t \<and> (\<exists>w. w \<noteq> [] \<and> c_str (drop t bs') = Inr w \<and> t + length w \<le> p'))"
proof -
  from assms obtain k where k: "strspn (drop p bs) ds = Inr k"
    by (auto simp: strtok_def split: sum.splits)
  from strspn_Inr [OF k] have kl: "k < length (drop p bs)"
    and kc: "\<exists>c. drop p bs ! k = Some c \<and> (c = NUL \<or> c \<notin> set ds)" by simp_all
  define t where "t = p + k"
  from kl have tl: "t < length bs" "p \<le> length bs" by (simp_all add: t_def)
  have ndp: "drop p bs ! j = bs ! (p + j)" for j using tl(2) by (rule nth_drop)
  from kc obtain c where c: "bs ! t = Some c" "c = NUL \<or> c \<notin> set ds"
    by (auto simp: ndp t_def)
  show ?thesis
  proof (cases "c = NUL")
    case True
    with assms k c have "tok = None" "bs' = bs" "p' = t"
      by (simp_all add: strtok_def Let_def t_def)
    then show ?thesis by (simp add: t_def)
  next
    case False
    with c have cd: "c \<notin> set ds" by simp
    from assms k c False obtain m where m: "strcspn (drop t bs) ds = Inr m"
      by (auto simp: strtok_def Let_def t_def split: sum.splits)
    from strcspn_Inr [OF m] have ml: "m < length (drop t bs)"
      and mc: "\<exists>c. drop t bs ! m = Some c \<and> (c = NUL \<or> c \<in> set ds)"
      and mb: "\<forall>j<m. \<exists>c. drop t bs ! j = Some c \<and> c \<noteq> NUL \<and> c \<notin> set ds" by simp_all
    have ndt: "drop t bs ! j = bs ! (t + j)" for j using tl(1) by (intro nth_drop) simp
    define e where "e = t + m"
    from ml have el: "e < length bs" by (simp add: e_def)
    have mpos: "0 < m"
    proof (rule ccontr)
      assume "\<not> 0 < m"
      then have "m = 0" by simp
      with mc c False cd show False by (simp add: ndt)
    qed
    have body: "\<forall>j<m. \<exists>c. bs ! (t + j) = Some c \<and> c \<noteq> NUL"
      using mb by (auto simp: ndt)
    have tok: "tok = Some t" and bs': "bs' = (if bs ! e = Some NUL then bs else bs[e := Some NUL])"
      and p': "p' = (if bs ! e = Some NUL then e else e + 1)"
      using assms k c False m by (auto simp: strtok_def Let_def t_def e_def split: if_splits)
    have len: "length bs' = length bs" by (simp add: bs')
    have enul: "bs' ! e = Some NUL" using el by (simp add: bs')
    have keep: "bs' ! j = bs ! j" if "j < e" for j using that by (simp add: bs')
    have "\<forall>j<m. \<exists>c. bs' ! (t + j) = Some c \<and> c \<noteq> NUL"
      using body keep by (simp add: e_def)
    with str_at_token [of t m bs'] el enul len
    obtain w where w: "length w = m" "c_str (drop t bs') = Inr w" by (auto simp: e_def)
    have pres: "c_str (drop t0 bs') = Inr w0" if "t0 + length w0 \<le> p" "c_str (drop t0 bs) = Inr w0" for t0 w0
    proof (cases "bs ! e = Some NUL")
      case True
      with that(2) show ?thesis by (simp add: bs')
    next
      case False
      from that(1) mpos have "t0 + length w0 < e" by (simp add: e_def t_def)
      with that(2) have "c_str (drop t0 (bs[e := Some NUL])) = Inr w0" by (rule str_at_update)
      with False show ?thesis by (simp add: bs')
    qed
    have "p \<le> p'" by (simp add: p' e_def t_def)
    moreover have "p \<le> t" by (simp add: t_def)
    moreover have "w \<noteq> []" using w(1) mpos by auto
    moreover have "t + length w \<le> p'" using w(1) by (simp add: p' e_def)
    ultimately show ?thesis using len pres w(2) tok by blast
  qed
qed

lemma tokenize_loop_layout:
  assumes "tokenize_loop tokens i token bs save = Inr (tokens', i', bs')"
    and "i = int (length os)" and "length os \<le> 10" and "length tokens = 10"
    and "take (length os) tokens = map Ptr os"
    and "laid_out os ws bs"
    and "\<forall>k<length os. os ! k + length (ws ! k) \<le> save"
    and "\<forall>t. token = Some t \<longrightarrow>
           (\<exists>w. w \<noteq> [] \<and> c_str (drop t bs) = Inr w \<and> t + length w \<le> save \<and>
                (\<forall>k<length os. os ! k + length (ws ! k) \<le> t))"
  shows "\<exists>os' ws'. i' = int (length os') \<and> length os' \<le> 10 \<and> length tokens' = 10 \<and>
           take (length os') tokens' = map Ptr os' \<and> laid_out os' ws' bs'"
  using assms
proof (induction tokens i token bs save arbitrary: os ws rule: tokenize_loop.induct)
  case (1 tokens i token bs save)
  note prems = "1.prems"
  from prems(1) have unrolled:
    "(case token of
        None \<Rightarrow> Inr (tokens, i, bs)
      | Some t \<Rightarrow>
          if i < MAX_ARGS then
            (if i < 0 then Inl OutOfBounds
             else case strtok bs save [CHR '' ''] of
                    Inl f \<Rightarrow> Inl f
                  | Inr (token', bs', save') \<Rightarrow>
                      tokenize_loop (tokens[nat i := Ptr t]) (i + 1) token' bs' save')
          else Inr (tokens, i, bs)) = Inr (tokens', i', bs')"
    by (subst (asm) tokenize_loop.simps)
  show ?case
  proof (cases "token = None \<or> \<not> i < MAX_ARGS")
    case True
    with unrolled have "tokens' = tokens" "i' = i" "bs' = bs"
      by (auto split: option.splits)
    with prems show ?thesis by blast
  next
    case False
    then obtain t where t: "token = Some t" and lt: "i < MAX_ARGS" by auto
    from prems(2) have nneg: "\<not> i < 0" by simp
    define n where "n = length os"
    have n: "i = int n" "n < 10" "nat i = n" using prems(2) lt by (simp_all add: n_def MAX_ARGS_def)
    from unrolled t lt nneg obtain token1 bs1 save1 where
      st: "strtok bs save [CHR '' ''] = Inr (token1, bs1, save1)" and
      rec: "tokenize_loop (tokens[nat i := Ptr t]) (i + 1) token1 bs1 save1 = Inr (tokens', i', bs')"
      by (auto split: sum.splits)
    from strtok_spec [OF st] have sp: "length bs1 = length bs" "save \<le> save1"
      "\<And>t w. t + length w \<le> save \<Longrightarrow> c_str (drop t bs) = Inr w \<Longrightarrow> c_str (drop t bs1) = Inr w"
      "\<And>t1. token1 = Some t1 \<Longrightarrow>
         save \<le> t1 \<and> (\<exists>w. w \<noteq> [] \<and> c_str (drop t1 bs1) = Inr w \<and> t1 + length w \<le> save1)"
      by blast+
    from prems(8) t obtain w where w: "w \<noteq> []" "c_str (drop t bs) = Inr w" "t + length w \<le> save"
      "\<forall>k<length os. os ! k + length (ws ! k) \<le> t" by blast
    from prems(6) have lo: "length os = length ws"
      "\<And>k. k < length os \<Longrightarrow> c_str (drop (os ! k) bs) = Inr (ws ! k) \<and> ws ! k \<noteq> []"
      "\<And>k k'. k < length os \<Longrightarrow> k' < length os \<Longrightarrow> k < k' \<Longrightarrow> os ! k + length (ws ! k) \<le> os ! k'"
      unfolding laid_out_def by blast+
    define os1 where "os1 = os @ [t]"
    define ws1 where "ws1 = ws @ [w]"
    have len1: "length os1 = Suc n" "length ws1 = Suc n" using lo(1) by (simp_all add: os1_def ws1_def n_def)
    have nth1: "os1 ! k = (if k < n then os ! k else t)" "ws1 ! k = (if k < n then ws ! k else w)"
      if "k < Suc n" for k
      using that lo(1) by (auto simp: os1_def ws1_def n_def nth_append)
    have end1: "os1 ! k + length (ws1 ! k) \<le> save" if "k < Suc n" for k
      using that prems(7) w(3) nth1 [OF that] by (simp add: n_def)
    have str0: "c_str (drop (os1 ! k) bs) = Inr (ws1 ! k) \<and> ws1 ! k \<noteq> []" if "k < Suc n" for k
      using that lo(2) [of k] w(1,2) nth1 [OF that] by (simp add: n_def)
    have str1: "c_str (drop (os1 ! k) bs1) = Inr (ws1 ! k) \<and> ws1 ! k \<noteq> []" if "k < Suc n" for k
      using str0 [OF that] sp(3) [OF end1 [OF that]] by blast
    have sep1: "os1 ! k + length (ws1 ! k) \<le> os1 ! k'" if "k < Suc n" "k' < Suc n" "k < k'" for k k'
    proof (cases "k' < n")
      case True
      with that lo(3) [of k k'] nth1 [of k] nth1 [of k'] show ?thesis by (simp add: n_def)
    next
      case False
      with that have "k' = n" "k < n" by simp_all
      with w(4) nth1 [of k] nth1 [of k'] show ?thesis by (simp add: n_def)
    qed
    have lay1: "laid_out os1 ws1 bs1"
      unfolding laid_out_def using len1 str1 sep1 by simp
    have take1: "take (length os1) (tokens[nat i := Ptr t]) = map Ptr os1"
    proof -
      have "n < length (tokens[n := Ptr t])" using n(2) prems(4) by simp
      then have "take (Suc n) (tokens[n := Ptr t]) = take n (tokens[n := Ptr t]) @ [tokens[n := Ptr t] ! n]"
        by (rule take_Suc_conv_app_nth)
      also have "take n (tokens[n := Ptr t]) = take n tokens" by simp
      also have "tokens[n := Ptr t] ! n = Ptr t" using n(2) prems(4) by simp
      finally show ?thesis using prems(5) by (simp add: len1 n(3) os1_def n_def)
    qed
    have ends1: "\<forall>k<length os1. os1 ! k + length (ws1 ! k) \<le> save1"
      using end1 sp(2) len1 by fastforce
    have pend1: "\<forall>t1. token1 = Some t1 \<longrightarrow>
           (\<exists>w. w \<noteq> [] \<and> c_str (drop t1 bs1) = Inr w \<and> t1 + length w \<le> save1 \<and>
                (\<forall>k<length os1. os1 ! k + length (ws1 ! k) \<le> t1))"
    proof (intro allI impI)
      fix t1 assume "token1 = Some t1"
      from sp(4) [OF this] obtain w1 where "save \<le> t1" "w1 \<noteq> []" "c_str (drop t1 bs1) = Inr w1"
        "t1 + length w1 \<le> save1" by blast
      moreover from this(1) end1 len1 have "\<forall>k<length os1. os1 ! k + length (ws1 ! k) \<le> t1"
        by fastforce
      ultimately show "\<exists>w. w \<noteq> [] \<and> c_str (drop t1 bs1) = Inr w \<and> t1 + length w \<le> save1 \<and>
                (\<forall>k<length os1. os1 ! k + length (ws1 ! k) \<le> t1)" by blast
    qed
    have i1: "i + 1 = int (length os1)" using n(1) len1 by simp
    have l1: "length os1 \<le> 10" using n(2) len1 by simp
    have lt1: "length (tokens[nat i := Ptr t]) = 10" using prems(4) by simp
    from "1.IH" [OF t lt nneg st refl refl rec i1 l1 lt1 take1 lay1 ends1 pend1]
    show ?thesis .
  qed
qed

lemma execcmd_tokens_layout:
  assumes "execcmd_tokens bs = Inr (tokens, i, bs1)"
  shows "\<exists>os ws rest. tokens = map Ptr os @ Null # rest \<and> length tokens = 10 \<and>
           i = int (length os) \<and> laid_out os ws bs1"
proof -
  from assms obtain token bsa save tk where
    st: "strtok bs 0 [CHR '' '', CR, LF] = Inr (token, bsa, save)" and
    lp: "tokenize_loop (replicate 10 Uninit) 0 token bsa save = Inr (tk, i, bs1)" and
    ir: "0 \<le> i" "i < MAX_ARGS" and tk: "tokens = tk[nat i := Null]"
    by (auto simp: execcmd_tokens_def split: sum.splits prod.splits if_splits)
  from strtok_spec [OF st] have pend: "\<forall>t. token = Some t \<longrightarrow>
           (\<exists>w. w \<noteq> [] \<and> c_str (drop t bsa) = Inr w \<and> t + length w \<le> save \<and>
                (\<forall>k<length ([]::nat list). [] ! k + length ([] ! k) \<le> t))"
    by simp
  have "\<exists>os' ws'. i = int (length os') \<and> length os' \<le> 10 \<and> length tk = 10 \<and>
           take (length os') tk = map Ptr os' \<and> laid_out os' ws' bs1"
    by (rule tokenize_loop_layout [OF lp, of "[]" "[]"])
       (use pend in \<open>simp_all add: laid_out_def\<close>)
  then obtain os ws where o: "i = int (length os)" "length tk = 10"
    "take (length os) tk = map Ptr os" "laid_out os ws bs1" by blast
  from o(1) ir(2) have n: "length os < length tk" "nat i = length os"
    by (simp_all add: o(2) MAX_ARGS_def)
  have "tk[length os := Null] = take (length os) tk @ Null # drop (Suc (length os)) tk"
    using n(1) by (rule upd_conv_take_nth_drop)
  with tk n(2) o(3) have "tokens = map Ptr os @ Null # drop (Suc (length os)) tk" by simp
  moreover have "length tokens = 10" using tk o(2) by simp
  ultimately show ?thesis using o(1,4) by blast
qed

lemma argv_of_strings:
  "length os = length ws \<Longrightarrow> (\<forall>k<length os. c_str (drop (os ! k) bs) = Inr (ws ! k)) \<Longrightarrow>
   argv_of (map Ptr os @ Null # rest) bs = Inr ws"
proof (induction os arbitrary: ws)
  case Nil
  then show ?case by simp
next
  case (Cons t os)
  then obtain w ws' where ws: "ws = w # ws'" by (cases ws) auto
  from Cons.prems(2) ws have "c_str (drop t bs) = Inr w" by auto
  moreover have "argv_of (map Ptr os @ Null # rest) bs = Inr ws'"
  proof (rule Cons.IH)
    show "length os = length ws'" using Cons.prems(1) ws by simp
    show "\<forall>k<length os. c_str (drop (os ! k) bs) = Inr (ws' ! k)"
    proof (intro allI impI)
      fix k assume "k < length os"
      then have "Suc k < length (t # os)" by simp
      with Cons.prems(2) have "c_str (drop ((t # os) ! Suc k) bs) = Inr (ws ! Suc k)" by blast
      then show "c_str (drop (os ! k) bs) = Inr (ws' ! k)" using ws by simp
    qed
  qed
  ultimately show ?case using ws by simp
qed

lemma str_at_update_below:
  assumes "c_str (drop t bs) = Inr w" and "e < t"
  shows "c_str (drop t (bs[e := x])) = Inr w"
proof -
  from assms(1) have f: "t + length w < length bs" "bs ! (t + length w) = Some NUL"
    "\<forall>j<length w. bs ! (t + j) = Some (w ! j)" "NUL \<notin> set w"
    unfolding str_at_iff by simp_all
  have "bs[e := x] ! (t + j) = bs ! (t + j)" for j using assms(2) by simp
  with f show ?thesis unfolding str_at_iff by simp
qed

lemma str_at_cut:
  assumes "c_str (drop t bs) = Inr w" and "w \<noteq> []"
  shows "c_str (drop t (bs[t + length w - 1 := Some NUL])) = Inr (butlast w)"
proof -
  from assms(1) have f: "t + length w < length bs" "bs ! (t + length w) = Some NUL"
    "\<forall>j<length w. bs ! (t + j) = Some (w ! j)" "NUL \<notin> set w"
    unfolding str_at_iff by simp_all
  from assms(2) have lw: "0 < length w" by simp
  define e where "e = t + length w - 1"
  have "length (butlast w) = length w - 1" by simp
  with lw f(1) have e: "e = t + length (butlast w)" "e < length bs"
    unfolding e_def by linarith+
  have "\<forall>j<length (butlast w). bs[e := Some NUL] ! (t + j) = Some (butlast w ! j)"
  proof (intro allI impI)
    fix j assume j: "j < length (butlast w)"
    then have "t + j \<noteq> e" "j < length w" using e(1) by simp_all
    with f(3) j show "bs[e := Some NUL] ! (t + j) = Some (butlast w ! j)"
      by (simp add: nth_butlast)
  qed
  moreover have "bs[e := Some NUL] ! (t + length (butlast w)) = Some NUL"
    using e by simp
  moreover have "NUL \<notin> set (butlast w)" using f(4) by (auto dest: in_set_butlastD)
  moreover have "t + length (butlast w) < length (bs[e := Some NUL])" using e by simp
  ultimately show ?thesis unfolding str_at_iff e_def [symmetric] by simp
qed

text \<open>
  C2.  The claim: a \<open>&\<close> at the end of the final token, or a final token \<open>&\<close>, is
  stripped and makes the command a background one, and any other line is a foreground
  one with its tokens unchanged.  The code tests the end of \<^verbatim>\<open>tokens[0]\<close>, not of the
  final token.  What it does, for every command block that the tokenization accepts with
  at least one token, \<open>ws\<close> being the tokens: when the first token ends in \<open>&\<close>, that
  character is cut off the first token, the other tokens stay, and \<^verbatim>\<open>background\<close> is 1;
  otherwise, when the final token is \<open>&\<close>, that token is removed and \<^verbatim>\<open>background\<close>
  is 1; otherwise \<^verbatim>\<open>background\<close> is 0 and the array and the block are unchanged.
\<close>

theorem marker_detection:
  assumes "execcmd_tokens bs = Inr (tokens, i, bs1)" and "0 < i"
  shows "\<exists>ws tokens' bs2 background.
           argv_of tokens bs1 = Inr ws \<and> length ws = nat i \<and> [] \<notin> set ws \<and>
           execcmd_marker tokens i bs1 = Inr (tokens', bs2, background) \<and>
           (if last (hd ws) = CHR ''&''
            then background = 1 \<and> argv_of tokens' bs2 = Inr (butlast (hd ws) # tl ws)
            else if last ws = ''&''
            then background = 1 \<and> argv_of tokens' bs2 = Inr (butlast ws)
            else background = 0 \<and> argv_of tokens' bs2 = Inr ws \<and> tokens' = tokens \<and> bs2 = bs1)"
proof -
  from execcmd_tokens_layout [OF assms(1)] obtain os ws rest where
    tk: "tokens = map Ptr os @ Null # rest" and tl: "length tokens = 10"
    and i: "i = int (length os)" and lay: "laid_out os ws bs1" by blast
  define n where "n = length os"
  from assms(2) i have n: "0 < n" "i = int n" by (simp_all add: n_def)
  from tk tl have n10: "n < 10" by (simp add: n_def)
  from lay have lo: "length ws = n"
    "\<And>k. k < n \<Longrightarrow> c_str (drop (os ! k) bs1) = Inr (ws ! k)"
    "\<And>k. k < n \<Longrightarrow> ws ! k \<noteq> []"
    "\<And>k k'. k < n \<Longrightarrow> k' < n \<Longrightarrow> k < k' \<Longrightarrow> os ! k + length (ws ! k) \<le> os ! k'"
    unfolding laid_out_def n_def by simp_all
  have argv: "argv_of tokens bs1 = Inr ws"
    unfolding tk by (rule argv_of_strings) (use lo in \<open>simp_all add: n_def\<close>)
  have ne: "[] \<notin> set ws"
  proof
    assume "[] \<in> set ws"
    then obtain k where "k < length ws" "ws ! k = []" by (auto simp: in_set_conv_nth)
    with lo(1,3) show False by auto
  qed
  have wsne: "ws \<noteq> []" using lo(1) n(1) by auto
  have tok: "tokens ! k = Ptr (os ! k)" if "k < n" for k
    using that by (simp add: tk nth_append n_def)
  have t0: "token_at tokens 0 = Inr (os ! 0)"
    using tok [of 0] n(1) by (simp add: token_at_def MAX_ARGS_def)
  define w0 where "w0 = hd ws"
  have w0: "w0 = ws ! 0" "w0 \<noteq> []" "c_str (drop (os ! 0) bs1) = Inr w0"
    using wsne lo(2) [of 0] lo(3) [of 0] n(1) by (simp_all add: w0_def hd_conv_nth)
  show ?thesis
  proof (cases "last w0 = CHR ''&''")
    case True
    define bs2 where "bs2 = bs1[os ! 0 + length w0 - 1 := Some NUL]"
    have mk: "execcmd_marker tokens i bs1 = Inr (tokens, bs2, 1)"
      using t0 w0 True by (simp add: execcmd_marker_def bs2_def)
    have "argv_of tokens bs2 = Inr (butlast w0 # tl ws)"
      unfolding tk
    proof (rule argv_of_strings)
      show "length os = length (butlast w0 # tl ws)" using lo(1) n(1) by (simp add: n_def)
      show "\<forall>k<length os. c_str (drop (os ! k) bs2) = Inr ((butlast w0 # tl ws) ! k)"
      proof (intro allI impI)
        fix k assume k: "k < length os"
        show "c_str (drop (os ! k) bs2) = Inr ((butlast w0 # tl ws) ! k)"
        proof (cases k)
          case 0
          with str_at_cut [OF w0(3) w0(2)] show ?thesis by (simp add: bs2_def)
        next
          case (Suc k')
          with k have kn: "k < n" "0 < k" by (simp_all add: n_def)
          have "0 < length w0" using w0(2) by simp
          moreover have "os ! 0 + length w0 \<le> os ! k"
            using lo(4) [OF n(1) kn(1) kn(2)] w0(1) by simp
          ultimately have "os ! 0 + length w0 - 1 < os ! k" by linarith
          with lo(2) [OF kn(1)] have "c_str (drop (os ! k) bs2) = Inr (ws ! k)"
            unfolding bs2_def by (rule str_at_update_below)
          moreover have "(butlast w0 # tl ws) ! k = ws ! k"
            using Suc kn(1) lo(1) by (simp add: nth_tl)
          ultimately show ?thesis by simp
        qed
      qed
    qed
    with argv lo(1) ne mk True n(2) show ?thesis
      unfolding w0_def by (intro exI [of _ ws] exI [of _ tokens] exI [of _ bs2] exI [of _ 1]) simp
  next
    case False
    define m where "m = n - 1"
    have m: "m < n" "nat (i - 1) = m" "Suc m = n" using n by (simp_all add: m_def)
    have t1: "token_at tokens (i - 1) = Inr (os ! m)"
      using tok [OF m(1)] n n10 m(2) by (simp add: token_at_def MAX_ARGS_def)
    define wl where "wl = last ws"
    have wl: "wl = ws ! m" "wl \<noteq> []" "c_str (drop (os ! m) bs1) = Inr wl"
      using wsne lo(1) lo(2) [OF m(1)] lo(3) [OF m(1)] by (simp_all add: wl_def last_conv_nth m_def)
    from wl(3) have f: "os ! m + length wl < length bs1"
      "\<forall>j<length wl. bs1 ! (os ! m + j) = Some (wl ! j)"
      unfolding str_at_iff by simp_all
    from f(2) wl(2) have "bs1 ! (os ! m) = Some (wl ! 0)" by (cases wl) auto
    with f(1) wl(2) have b1: "byte_at bs1 (os ! m) = Inr (hd wl)"
      by (simp add: byte_at_def hd_conv_nth)
    have amp: "wl = ''&'' \<longleftrightarrow> hd wl = CHR ''&'' \<and> length wl = 1"
      using wl(2) by (cases wl) auto
    show ?thesis
    proof (cases "wl = ''&''")
      case True
      have mk: "execcmd_marker tokens i bs1 = Inr (tokens[m := Null], bs1, 1)"
        using t0 w0 False t1 b1 wl(3) True m(2) by (simp add: execcmd_marker_def)
      have upd: "tokens[m := Null] = map Ptr (butlast os) @ Null # Null # rest"
      proof -
        have "os = butlast os @ [last os]" using n(1) by (simp add: n_def)
        then have "map Ptr os = map Ptr (butlast os) @ [Ptr (last os)]" by (metis map_append list.simps(8,9))
        moreover have "length (map Ptr (butlast os)) = m" by (simp add: m_def n_def)
        ultimately show ?thesis unfolding tk by (simp add: list_update_append)
      qed
      have "argv_of (tokens[m := Null]) bs1 = Inr (butlast ws)"
        unfolding upd
      proof (rule argv_of_strings)
        show "length (butlast os) = length (butlast ws)" using lo(1) by (simp add: n_def)
        show "\<forall>k<length (butlast os). c_str (drop (butlast os ! k) bs1) = Inr (butlast ws ! k)"
        proof (intro allI impI)
          fix k assume "k < length (butlast os)"
          then have k: "k < m" by (simp add: m_def n_def)
          then have "butlast os ! k = os ! k" "butlast ws ! k = ws ! k"
            using lo(1) by (simp_all add: nth_butlast m_def n_def)
          with lo(2) [of k] k m(1) show "c_str (drop (butlast os ! k) bs1) = Inr (butlast ws ! k)"
            by simp
        qed
      qed
      with argv lo(1) ne mk False True n(2) show ?thesis
        unfolding w0_def wl_def
        by (intro exI [of _ ws] exI [of _ "tokens[m := Null]"] exI [of _ bs1] exI [of _ 1]) simp
    next
      case ff: False
      have mk: "execcmd_marker tokens i bs1 = Inr (tokens, bs1, 0)"
        using t0 w0 False t1 b1 wl(3) ff amp by (auto simp: execcmd_marker_def)
      with argv lo(1) ne False ff n(2) show ?thesis
        unfolding w0_def wl_def
        by (intro exI [of _ ws] exI [of _ tokens] exI [of _ bs1] exI [of _ 0]) simp
    qed
  qed
qed


lemma replicate_10: "replicate 10 x = [x, x, x, x, x, x, x, x, x, x]"
  by (simp add: numeral_eq_Suc)

theorem marker_detection_witness:
  "(\<exists>tokens i bs1 tokens' bs2.
       execcmd_tokens (map Some ''sleep 10 &'' @ Some NUL # replicate 53 None) = Inr (tokens, i, bs1) \<and>
       0 < i \<and> execcmd_marker tokens i bs1 = Inr (tokens', bs2, 1) \<and>
       argv_of tokens' bs2 = Inr [''sleep'', ''10'']) \<and>
   (\<exists>tokens i bs1 tokens' bs2.
       execcmd_tokens (map Some ''sleep5&'' @ Some NUL # replicate 56 None) = Inr (tokens, i, bs1) \<and>
       0 < i \<and> execcmd_marker tokens i bs1 = Inr (tokens', bs2, 1) \<and>
       argv_of tokens' bs2 = Inr [''sleep5'']) \<and>
   (\<exists>tokens i bs1 tokens' bs2.
       execcmd_tokens (map Some ''ls  -l'' @ Some NUL # replicate 57 None) = Inr (tokens, i, bs1) \<and>
       0 < i \<and> execcmd_marker tokens i bs1 = Inr (tokens', bs2, 0) \<and>
       argv_of tokens' bs2 = Inr [''ls'', ''-l''])"
proof -
  have "\<exists>tokens i bs1. execcmd_tokens (map Some ''sleep 10 &'' @ Some NUL # replicate 53 None) = Inr (tokens, i, bs1) \<and>
       0 < i \<and> argv_of tokens bs1 = Inr [''sleep'', ''10'', ''&'']"
    by (simp add: dispatch_defs replicate_10)
  then obtain tokens i bs1 where a: "execcmd_tokens (map Some ''sleep 10 &'' @ Some NUL # replicate 53 None) = Inr (tokens, i, bs1)"
    "0 < i" "argv_of tokens bs1 = Inr [''sleep'', ''10'', ''&'']" by blast
  from marker_detection [OF a(1,2)] a(3)
  have "\<exists>tokens' bs2. execcmd_marker tokens i bs1 = Inr (tokens', bs2, 1) \<and>
       argv_of tokens' bs2 = Inr [''sleep'', ''10'']" by auto
  with a have w1: "\<exists>tokens i bs1 tokens' bs2.
       execcmd_tokens (map Some ''sleep 10 &'' @ Some NUL # replicate 53 None) = Inr (tokens, i, bs1) \<and>
       0 < i \<and> execcmd_marker tokens i bs1 = Inr (tokens', bs2, 1) \<and>
       argv_of tokens' bs2 = Inr [''sleep'', ''10'']" by blast
  have "\<exists>tokens i bs1. execcmd_tokens (map Some ''sleep5&'' @ Some NUL # replicate 56 None) = Inr (tokens, i, bs1) \<and>
       0 < i \<and> argv_of tokens bs1 = Inr [''sleep5&'']"
    by (simp add: dispatch_defs replicate_10)
  then obtain tokens i bs1 where b: "execcmd_tokens (map Some ''sleep5&'' @ Some NUL # replicate 56 None) = Inr (tokens, i, bs1)"
    "0 < i" "argv_of tokens bs1 = Inr [''sleep5&'']" by blast
  from marker_detection [OF b(1,2)] b(3)
  have "\<exists>tokens' bs2. execcmd_marker tokens i bs1 = Inr (tokens', bs2, 1) \<and>
       argv_of tokens' bs2 = Inr [''sleep5'']" by auto
  with b have w2: "\<exists>tokens i bs1 tokens' bs2.
       execcmd_tokens (map Some ''sleep5&'' @ Some NUL # replicate 56 None) = Inr (tokens, i, bs1) \<and>
       0 < i \<and> execcmd_marker tokens i bs1 = Inr (tokens', bs2, 1) \<and>
       argv_of tokens' bs2 = Inr [''sleep5'']" by blast
  have "\<exists>tokens i bs1. execcmd_tokens (map Some ''ls  -l'' @ Some NUL # replicate 57 None) = Inr (tokens, i, bs1) \<and>
       0 < i \<and> argv_of tokens bs1 = Inr [''ls'', ''-l'']"
    by (simp add: dispatch_defs replicate_10)
  then obtain tokens i bs1 where c: "execcmd_tokens (map Some ''ls  -l'' @ Some NUL # replicate 57 None) = Inr (tokens, i, bs1)"
    "0 < i" "argv_of tokens bs1 = Inr [''ls'', ''-l'']" by blast
  from marker_detection [OF c(1,2)] c(3)
  have "\<exists>tokens' bs2. execcmd_marker tokens i bs1 = Inr (tokens', bs2, 0) \<and>
       argv_of tokens' bs2 = Inr [''ls'', ''-l'']" by auto
  with c have w3: "\<exists>tokens i bs1 tokens' bs2.
       execcmd_tokens (map Some ''ls  -l'' @ Some NUL # replicate 57 None) = Inr (tokens, i, bs1) \<and>
       0 < i \<and> execcmd_marker tokens i bs1 = Inr (tokens', bs2, 0) \<and>
       argv_of tokens' bs2 = Inr [''ls'', ''-l'']" by blast
  from w1 w2 w3 show ?thesis by blast
qed

text \<open>
  C2, the claim as stated fails: for the line \<open>sleep 10&\<close> the child calls
  \<^verbatim>\<open>execvp\<close> with the argument \<open>10&\<close>, and \<^verbatim>\<open>background\<close> is 0; for the line
  \<open>ls& -l\<close>, which ends in no marker, \<^verbatim>\<open>background\<close> is 1.
\<close>

theorem trailing_marker_counterexample:
  "execcmd 0 int buff (store_line ''sleep 10&'' shell_init) =
     Some (Inr (Execvp ''sleep'' [''sleep'', ''10&''])) \<and>
   (case execcmd_tokens (map Some ''sleep 10&'' @ Some NUL # replicate 54 None) of
      Inl f \<Rightarrow> False
    | Inr (tokens, i, bs1) \<Rightarrow>
        (case execcmd_marker tokens i bs1 of
           Inl f \<Rightarrow> False
         | Inr (tokens', bs2, background) \<Rightarrow>
             background = 0 \<and> argv_of tokens' bs2 = Inr [''sleep'', ''10&''])) \<and>
   (case execcmd_tokens (map Some ''ls& -l'' @ Some NUL # replicate 57 None) of
      Inl f \<Rightarrow> False
    | Inr (tokens, i, bs1) \<Rightarrow>
        (case execcmd_marker tokens i bs1 of
           Inl f \<Rightarrow> False
         | Inr (tokens', bs2, background) \<Rightarrow>
             background = 1 \<and> argv_of tokens' bs2 = Inr [''ls'', ''-l'']))"
  by (simp add: dispatch_defs store_line_def replicate_10)


text \<open>
  C4.  The claim: a line of more than ten tokens is cut to ten, and every store into the
  token array, the closing \<^verbatim>\<open>NULL\<close> included, is inside the array.  The loop stores at
  most ten tokens, at the indices 0 to 9.  For a line of ten tokens it ends with
  \<open>i = 10\<close>, and \<^verbatim>\<open>tokens[i] = NULL\<close> then writes past the ten entries of the array.
\<close>

theorem ten_tokens_out_of_bounds:
  "main_step (Some (''a b c d e f g h i j'' @ [LF])) fork_ret waits shell_init =
     Some (Inl OutOfBounds)"
  by (simp add: dispatch_defs)

text \<open>
  C5.  The claim: a line without a token, empty or blank, is dispatched as a no-op.  The
  empty line is: one byte is read, and \<^verbatim>\<open>main\<close> calls \<^verbatim>\<open>execcmd\<close> only for more than
  one.  A line of one space is passed on; \<^verbatim>\<open>strtok\<close> finds no token, \<^verbatim>\<open>tokens[0]\<close>
  is \<^verbatim>\<open>NULL\<close>, and the test of the marker calls \<^verbatim>\<open>strlen\<close> on it.
\<close>

theorem blank_line_null_deref:
  "main_step (Some [LF]) fork_ret waits shell_init =
     Some (Inr (Continue (shell_init
       \<lparr>strs := (strs shell_init)(buff := Some (Some LF # replicate 63 None)),
        out := SHELL_PROMPT\<rparr>))) \<and>
   main_step (Some ('' '' @ [LF])) fork_ret waits shell_init = Some (Inl NullDeref)"
  by (simp add: dispatch_defs)

section \<open>Properties of the history\<close>

lemma c_str_store: "NUL \<notin> set l \<Longrightarrow> c_str (map Some l @ Some NUL # r) = Inr l"
  by (induction l) auto

lemma c_str_no_NUL: "c_str bs = Inr l \<Longrightarrow> NUL \<notin> set l"
  by (induction bs arbitrary: l rule: c_str.induct) (auto split: if_splits sum.splits)

lemma hist_frame_refl: "hist_frame s s"
  by (simp add: hist_frame_def)

lemma hist_frame_trans: "hist_frame s s' \<Longrightarrow> hist_frame s' s'' \<Longrightarrow> hist_frame s s''"
  by (simp add: hist_frame_def)

lemma hist_frame_ok:
  assumes "hist_ok s" and "hist_frame s s'"
  shows "hist_ok s'"
  unfolding hist_ok_def
proof (intro conjI allI impI)
  fix j :: nat assume j: "j < 20"
  from assms(1) j have "case history s ! j of Uninit \<Rightarrow> False | Null \<Rightarrow> True
     | Ptr a \<Rightarrow> a \<noteq> buff \<and> a < brk s \<and> (\<exists>bs l. strs s a = Some bs \<and> c_str bs = Inr l) \<and>
                 (\<forall>k<20. history s ! k = Ptr a \<longrightarrow> k = j)"
    by (simp add: hist_ok_def)
  with assms(2) show "case history s' ! j of Uninit \<Rightarrow> False | Null \<Rightarrow> True
     | Ptr a \<Rightarrow> a \<noteq> buff \<and> a < brk s' \<and> (\<exists>bs l. strs s' a = Some bs \<and> c_str bs = Inr l) \<and>
                 (\<forall>k<20. history s' ! k = Ptr a \<longrightarrow> k = j)"
    by (auto simp: hist_frame_def split: ptr.splits)
qed (use assms in \<open>auto simp: hist_ok_def hist_frame_def\<close>)

lemma hist_frame_print_slot:
  assumes "hist_ok s" and "hist_frame s s'"
  shows "print_slot s' j = print_slot s j"
proof (cases "j < 0 \<or> HISTORY_SIZE \<le> j")
  case True
  then show ?thesis by (simp add: print_slot_def)
next
  case False
  then have j: "nat j < 20" unfolding HISTORY_SIZE_def by linarith
  from assms(1) j have "case history s ! nat j of Uninit \<Rightarrow> False | Null \<Rightarrow> True
     | Ptr a \<Rightarrow> a \<noteq> buff \<and> a < brk s \<and> (\<exists>bs l. strs s a = Some bs \<and> c_str bs = Inr l) \<and>
                 (\<forall>k<20. history s ! k = Ptr a \<longrightarrow> k = nat j)"
    unfolding hist_ok_def by blast
  with assms(2) False show ?thesis
    by (auto simp: print_slot_def hist_frame_def split: ptr.splits)
qed

lemma addChild_frame: "addChild p s = Inr s' \<Longrightarrow> hist_frame s s'"
  by (auto simp: addChild_def Let_def hist_frame_def split: if_splits)

lemma removeChild_loop_frame:
  "removeChild_loop pid openIndex i s = Inr s' \<Longrightarrow> hist_frame s s'"
proof (induction pid openIndex i s rule: removeChild_loop.induct)
  case (1 pid openIndex i s)
  from "1.prems" have unrolled:
    "(if i < numChildren s then
        (case child_at s i of
           Inl f \<Rightarrow> Inl f
         | Inr (a, v) \<Rightarrow>
             if v = pid then
               removeChild_loop pid i (i + 1)
                 (s\<lparr>pids := (pids s)(a := None), numChildren := numChildren s - 1\<rparr>)
             else if openIndex \<noteq> 0 then
               (if i - 1 < 0 then Inl OutOfBounds
                else removeChild_loop pid openIndex (i + 1)
                       (s\<lparr>children := (children s)[nat (i - 1) := children s ! nat i]\<rparr>))
             else removeChild_loop pid openIndex (i + 1) s)
      else Inr s) = Inr s'"
    by (subst (asm) removeChild_loop.simps)
  show ?case
  proof (cases "i < numChildren s")
    case False
    with unrolled show ?thesis by (simp add: hist_frame_def)
  next
    case True
    with unrolled obtain a v where av: "child_at s i = Inr (a, v)"
      by (auto split: sum.splits)
    show ?thesis
    proof (cases "v = pid")
      case eq: True
      with unrolled True av
      have "removeChild_loop pid i (i + 1)
              (s\<lparr>pids := (pids s)(a := None), numChildren := numChildren s - 1\<rparr>) = Inr s'"
        by simp
      from "1.IH"(1) [OF True av refl eq this]
      show ?thesis by (simp add: hist_frame_def)
    next
      case False
      show ?thesis
      proof (cases "openIndex \<noteq> 0")
        case nz: True
        with unrolled \<open>i < numChildren s\<close> av False
        have nn: "\<not> i - 1 < 0" and
          "removeChild_loop pid openIndex (i + 1)
              (s\<lparr>children := (children s)[nat (i - 1) := children s ! nat i]\<rparr>) = Inr s'"
          by (auto split: if_splits)
        from "1.IH"(2) [OF True av refl False nz nn this(2)]
        show ?thesis by (simp add: hist_frame_def)
      next
        case F2: False
        with unrolled True av False
        have "removeChild_loop pid openIndex (i + 1) s = Inr s'" by simp
        from "1.IH"(3) [OF True av refl False F2 this]
        show ?thesis .
      qed
    qed
  qed
qed

lemma reap_loop_frame: "reap_loop g exited s = Inr s' \<Longrightarrow> hist_frame s s'"
proof (induction exited arbitrary: s)
  case Nil
  then show ?case by (simp add: hist_frame_refl)
next
  case (Cons pid exited)
  show ?case
  proof (cases "pid > 0")
    case False
    with Cons.prems show ?thesis by (simp add: hist_frame_refl)
  next
    case True
    with Cons.prems obtain s1 where s1: "removeChild g pid s = Inr s1" "reap_loop g exited s1 = Inr s'"
      by (auto split: sum.splits)
    from s1(1) have "hist_frame s s1" unfolding removeChild_def by (rule removeChild_loop_frame)
    with Cons.IH [OF s1(2)] show ?thesis by (rule hist_frame_trans [rotated])
  qed
qed

lemma printHistory_frame: "printHistory s = Some (Inr s') \<Longrightarrow> hist_frame s s'"
  by (auto simp: printHistory_def hist_frame_def split: option.splits sum.splits)

lemma sig_handler_frame: "sig_handler sig g exited s = Some (Inr s') \<Longrightarrow> hist_frame s s'"
proof -
  assume h: "sig_handler sig g exited s = Some (Inr s')"
  consider "sig = SIGINT" | "sig \<noteq> SIGINT" "sig = SIGCHLD" | "sig \<noteq> SIGINT" "sig \<noteq> SIGCHLD" by blast
  then show ?thesis
  proof cases
    case 1
    with h obtain s1 where "printHistory s = Some (Inr s1)" "s' = s1\<lparr>interrupted := 1\<rparr>"
      by (auto simp: sig_handler_def split: option.splits sum.splits)
    with printHistory_frame [of s s1] show ?thesis by (simp add: hist_frame_def)
  next
    case 2
    with h obtain s1 where "reap_loop g exited s = Inr s1" "s' = s1\<lparr>interrupted := 1\<rparr>"
      by (auto simp: sig_handler_def split: option.splits sum.splits)
    with reap_loop_frame [of g exited s s1] show ?thesis by (simp add: hist_frame_def)
  next
    case 3
    with h show ?thesis by (auto simp: sig_handler_def hist_frame_def)
  qed
qed

lemma read_stdin_frame: "read_stdin input s = (r, s') \<Longrightarrow> hist_frame s s'"
  by (auto simp: read_stdin_def hist_frame_def Let_def split: option.splits)

lemma execcmd_frame:
  "execcmd fork_ret waits buff s = Some (Inr (Returned ret s' n)) \<Longrightarrow> hist_frame s s'"
proof -
  assume h: "execcmd fork_ret waits buff s = Some (Inr (Returned ret s' n))"
  then obtain bs tokens i bs1 tokens' bs2 background where
    "strs s buff = Some bs" "execcmd_tokens bs = Inr (tokens, i, bs1)"
    "execcmd_marker tokens i bs1 = Inr (tokens', bs2, background)"
    by (auto simp: execcmd_def split: option.splits sum.splits prod.splits)
  note p = this
  define s1 where "s1 = s\<lparr>strs := (strs s)(buff := Some bs2)\<rparr>"
  have f1: "hist_frame s s1" by (simp add: s1_def hist_frame_def)
  from h p have "s' = s1 \<or> addChild fork_ret s1 = Inr s'"
    by (auto simp: execcmd_def Let_def s1_def split: if_splits option.splits sum.splits)
  then show ?thesis
  proof
    assume "s' = s1" with f1 show ?thesis by simp
  next
    assume "addChild fork_ret s1 = Inr s'"
    then have "hist_frame s1 s'" by (rule addChild_frame)
    with f1 show ?thesis by (rule hist_frame_trans)
  qed
qed

lemma recordcmd_effect:
  assumes ok: "hist_ok s" and rec: "recordcmd cmd sz s = Inr s'"
  shows "\<exists>bs line. strs s cmd = Some bs \<and> c_str bs = Inr line \<and>
           hist_ok s' \<and>
           histInd s' = (histInd s + 1) mod HISTORY_SIZE \<and>
           history s' ! nat (histInd s) = Ptr (brk s) \<and>
           (\<exists>bl. strs s' (brk s) = Some bl \<and> c_str bl = Inr line) \<and>
           print_slot s' (histInd s) = Inr (line @ [LF]) \<and>
           (\<forall>j. j \<noteq> histInd s \<longrightarrow> print_slot s' j = print_slot s j) \<and>
           strs s' buff = strs s buff \<and> brk s \<le> brk s'"
proof -
  from ok have h: "0 \<le> histInd s" "histInd s < 20" and len: "length (history s) = 20"
    and bb: "buff < brk s" and bufok: "strs s buff \<noteq> None"
    by (simp_all add: hist_ok_def HISTORY_SIZE_def)
  define hn where "hn = nat (histInd s)"
  have hn: "hn < 20" "int hn = histInd s" using h by (simp_all add: hn_def)
  from ok have slots: "\<And>j. j < 20 \<Longrightarrow> (case history s ! j of Uninit \<Rightarrow> False | Null \<Rightarrow> True
       | Ptr a \<Rightarrow> a \<noteq> buff \<and> a < brk s \<and> (\<exists>bs l. strs s a = Some bs \<and> c_str bs = Inr l) \<and>
                 (\<forall>k<20. history s ! k = Ptr a \<longrightarrow> k = j))"
    by (simp add: hist_ok_def)
  from rec h obtain bs line where bs: "strs s cmd = Some bs" "c_str bs = Inr line"
    and sz: "\<not> sz < int (length line) + 1"
    by (auto simp: recordcmd_def HISTORY_SIZE_def Let_def split: option.splits sum.splits if_splits)
  define block where "block = map Some line @ Some NUL # replicate (nat sz - length line - 1) None"
  define s1 where "s1 = s\<lparr>strs := (strs s)(brk s := Some block), brk := Suc (brk s)\<rparr>"
  from rec h bs sz obtain s2 where s2: "free_str (history s ! hn) s1 = Inr s2"
    and s': "s' = s2\<lparr>history := (history s2)[nat (histInd s2) := Ptr (brk s)],
                    histInd := (if histInd s2 + 1 > HISTORY_SIZE - 1 then 0 else histInd s2 + 1)\<rparr>"
    by (auto simp: recordcmd_def HISTORY_SIZE_def Let_def s1_def block_def hn_def
        split: sum.splits)
  have nn: "NUL \<notin> set line" using bs(2) by (rule c_str_no_NUL)
  have cb: "c_str block = Inr line" unfolding block_def using nn by (rule c_str_store)
  have old: "history s ! hn = Null \<or> (\<exists>a. history s ! hn = Ptr a \<and> a \<noteq> buff \<and> a < brk s \<and>
       (\<forall>k<20. history s ! k = Ptr a \<longrightarrow> k = hn))"
    using slots [OF hn(1)] by (cases "history s ! hn") auto
  have s2_fields: "history s2 = history s" "histInd s2 = histInd s" "brk s2 = Suc (brk s)"
    "strs s2 (brk s) = Some block" "strs s2 buff = strs s buff"
    "\<And>a k. k < 20 \<Longrightarrow> k \<noteq> hn \<Longrightarrow> history s ! k = Ptr a \<Longrightarrow> strs s2 a = strs s a"
  proof -
    from old show "history s2 = history s" "histInd s2 = histInd s" "brk s2 = Suc (brk s)"
      "strs s2 (brk s) = Some block" "strs s2 buff = strs s buff"
      using s2 bb by (auto simp: free_str_def s1_def split: option.splits)
    fix a k assume k: "k < 20" "k \<noteq> hn" "history s ! k = Ptr a"
    from slots [OF k(1)] k(3) have "a < brk s" by simp
    moreover from old k have "history s ! hn \<noteq> Ptr a" by auto
    ultimately show "strs s2 a = strs s a"
      using s2 by (auto simp: free_str_def s1_def split: option.splits ptr.splits)
  qed
  have hist': "history s' = (history s)[hn := Ptr (brk s)]" and brk': "brk s' = Suc (brk s)"
    and strs': "strs s' = strs s2"
    using s' s2_fields h by (auto simp: hn_def HISTORY_SIZE_def)
  have "histInd s' = (if histInd s + 1 > 19 then 0 else histInd s + 1)"
    using s' s2_fields by (simp add: HISTORY_SIZE_def)
  then have hi': "histInd s' = (histInd s + 1) mod 20"
    using h by (cases "histInd s = 19") simp_all
  have inside: "\<not> (histInd s < 0 \<or> HISTORY_SIZE \<le> histInd s)"
    using h unfolding HISTORY_SIZE_def by linarith
  have "history s' ! nat (histInd s) = Ptr (brk s)"
    using len hn by (simp add: hist' hn_def)
  then have slot_new: "print_slot s' (histInd s) = Inr (line @ [LF])"
    using inside cb s2_fields(4) by (simp add: print_slot_def strs')
  have slot_old: "print_slot s' j = print_slot s j" if "j \<noteq> histInd s" for j
  proof (cases "j < 0 \<or> HISTORY_SIZE \<le> j")
    case True
    then show ?thesis by (simp add: print_slot_def)
  next
    case False
    then have j: "nat j < 20" "nat j \<noteq> hn" using that h unfolding HISTORY_SIZE_def hn_def by linarith+
    then have same: "history s' ! nat j = history s ! nat j" by (simp add: hist')
    show ?thesis
    proof (cases "history s ! nat j")
      case (Ptr a)
      with s2_fields(6) [OF j] have "strs s' a = strs s a" by (simp add: strs')
      with Ptr same False show ?thesis by (simp add: print_slot_def)
    qed (use same False in \<open>simp_all add: print_slot_def\<close>)
  qed
  have ok': "hist_ok s'"
    unfolding hist_ok_def
  proof (intro conjI allI impI)
    fix j :: nat assume j: "j < 20"
    show "case history s' ! j of Uninit \<Rightarrow> False | Null \<Rightarrow> True
       | Ptr a \<Rightarrow> a \<noteq> buff \<and> a < brk s' \<and> (\<exists>bs l. strs s' a = Some bs \<and> c_str bs = Inr l) \<and>
                 (\<forall>k<20. history s' ! k = Ptr a \<longrightarrow> k = j)"
    proof (cases "j = hn")
      case True
      have uniq: "\<forall>k<20. history s' ! k = Ptr (brk s) \<longrightarrow> k = j"
      proof (intro allI impI)
        fix k assume k: "k < 20" "history s' ! k = Ptr (brk s)"
        show "k = j"
        proof (rule ccontr)
          assume "k \<noteq> j"
          with k True have "history s ! k = Ptr (brk s)" by (simp add: hist')
          with slots [OF k(1)] show False by simp
        qed
      qed
      have e: "history s' ! j = Ptr (brk s)"
        using True len hn(1) by (simp add: hist')
      have live: "\<exists>bs l. strs s' (brk s) = Some bs \<and> c_str bs = Inr l"
        using cb s2_fields(4) by (simp add: strs')
      have "brk s \<noteq> buff" "brk s < brk s'" using bb by (simp_all add: brk')
      with uniq live show ?thesis unfolding e by simp
    next
      case False
      then have same: "history s' ! j = history s ! j" by (simp add: hist')
      show ?thesis
      proof (cases "history s ! j")
        case Uninit
        with slots [OF j] show ?thesis by simp
      next
        case Null
        with same show ?thesis by simp
      next
        case (Ptr a)
        with slots [OF j] have a: "a \<noteq> buff" "a < brk s" "\<exists>bs l. strs s a = Some bs \<and> c_str bs = Inr l"
          "\<forall>k<20. history s ! k = Ptr a \<longrightarrow> k = j" by simp_all
        have "strs s' a = strs s a" using s2_fields(6) [OF j False Ptr] by (simp add: strs')
        moreover have "\<forall>k<20. history s' ! k = Ptr a \<longrightarrow> k = j"
        proof (intro allI impI)
          fix k assume k: "k < 20" "history s' ! k = Ptr a"
          have "k \<noteq> hn"
          proof
            assume "k = hn"
            with k len hn have "a = brk s" by (simp add: hist')
            with a(2) show False by simp
          qed
          with k have "history s ! k = Ptr a" by (simp add: hist')
          with a(4) k(1) show "k = j" by simp
        qed
        ultimately show ?thesis using a same Ptr by (simp add: brk')
      qed
    qed
  qed (use h len bb hi' bufok s2_fields(5) in \<open>simp_all add: hist' brk' strs' HISTORY_SIZE_def\<close>)
  have "history s' ! nat (histInd s) = Ptr (brk s)"
    using len hn by (simp add: hist' hn_def)
  with bs ok' hi' slot_new slot_old cb s2_fields(4,5) brk' show ?thesis
    by (simp add: strs' HISTORY_SIZE_def)
qed

lemma hist_ok_init: "hist_ok shell_init"
  by (simp add: hist_ok_def shell_init_def HISTORY_SIZE_def buff_def)

lemma main_body_Continue:
  assumes "main_body r f w s = Some (Inr (Continue s'))"
  shows "(\<not> (r > 1 \<and> interrupted s = 0) \<and> s' = s\<lparr>interrupted := 0, out := out s @ SHELL_PROMPT\<rparr>) \<or>
         (r > 1 \<and> interrupted s = 0 \<and>
          (\<exists>bs newline s2 ret s3 n.
              strs s buff = Some bs \<and> strchr bs LF = Inr newline \<and>
              recordcmd buff r
                (s\<lparr>strs := (strs s)(buff := Some (case newline of None \<Rightarrow> bs | Some k \<Rightarrow> bs[k := Some NUL]))\<rparr>)
                = Inr s2 \<and>
              execcmd f w buff s2 = Some (Inr (Returned ret s3 n)) \<and>
              s' = s3\<lparr>interrupted := 0, out := out s3 @ SHELL_PROMPT\<rparr>))"
proof (cases "r > 1 \<and> interrupted s = 0")
  case False
  with assms show ?thesis by (auto simp: main_body_def Let_def)
next
  case True
  with assms obtain bs where bs: "strs s buff = Some bs"
    by (auto simp: main_body_def Let_def split: option.splits)
  with assms True obtain newline where nl: "strchr bs LF = Inr newline"
    by (auto simp: main_body_def Let_def split: sum.splits)
  define s1 where "s1 = s\<lparr>strs := (strs s)(buff := Some (case newline of None \<Rightarrow> bs | Some k \<Rightarrow> bs[k := Some NUL]))\<rparr>"
  from assms True bs nl obtain s2 where s2: "recordcmd buff r s1 = Inr s2"
    by (auto simp: main_body_def Let_def s1_def split: sum.splits)
  from assms True bs nl s2 obtain ret s3 n where
    "execcmd f w buff s2 = Some (Inr (Returned ret s3 n))"
    "s' = s3\<lparr>interrupted := 0, out := out s3 @ SHELL_PROMPT\<rparr>"
    by (auto simp: main_body_def Let_def s1_def split: option.splits sum.splits exec.splits)
  with True bs nl s2 show ?thesis unfolding s1_def by blast
qed

lemma main_body_ok:
  assumes "hist_ok s" and "main_body r f w s = Some (Inr (Continue s'))"
  shows "hist_ok s'"
proof -
  from main_body_Continue [OF assms(2)] show ?thesis
  proof (elim disjE conjE exE)
    assume "s' = s\<lparr>interrupted := 0, out := out s @ SHELL_PROMPT\<rparr>"
    then have "hist_frame s s'" by (simp add: hist_frame_def)
    with assms(1) show ?thesis by (rule hist_frame_ok)
  next
    fix bs newline s2 ret s3 n
    assume a: "recordcmd buff r
                (s\<lparr>strs := (strs s)(buff := Some (case newline of None \<Rightarrow> bs | Some k \<Rightarrow> bs[k := Some NUL]))\<rparr>)
                = Inr s2"
      "execcmd f w buff s2 = Some (Inr (Returned ret s3 n))"
      "s' = s3\<lparr>interrupted := 0, out := out s3 @ SHELL_PROMPT\<rparr>"
    have "hist_frame s (s\<lparr>strs := (strs s)(buff := Some (case newline of None \<Rightarrow> bs | Some k \<Rightarrow> bs[k := Some NUL]))\<rparr>)"
      by (simp add: hist_frame_def)
    with assms(1) have "hist_ok (s\<lparr>strs := (strs s)(buff := Some (case newline of None \<Rightarrow> bs | Some k \<Rightarrow> bs[k := Some NUL]))\<rparr>)"
      by (rule hist_frame_ok)
    from recordcmd_effect [OF this a(1)] have "hist_ok s2" by blast
    moreover have "hist_frame s2 s3" using a(2) by (rule execcmd_frame)
    ultimately have "hist_ok s3" by (rule hist_frame_ok)
    moreover have "hist_frame s3 s'" using a(3) by (simp add: hist_frame_def)
    ultimately show ?thesis by (rule hist_frame_ok)
  qed
qed

lemma main_step_Continue:
  assumes "main_step input f w s = Some (Inr (Continue s'))"
  shows "main_body (fst (read_stdin input s)) f w (snd (read_stdin input s)) = Some (Inr (Continue s'))"
  using assms by (auto simp: main_step_def split: prod.splits if_splits sum.splits)

lemma main_step_ok:
  assumes "hist_ok s" and "main_step input f w s = Some (Inr (Continue s'))"
  shows "hist_ok s'"
proof -
  have "hist_frame s (snd (read_stdin input s))"
    by (rule read_stdin_frame [of input s "fst (read_stdin input s)"]) simp
  with assms(1) have "hist_ok (snd (read_stdin input s))" by (rule hist_frame_ok)
  then show ?thesis using main_step_Continue [OF assms(2)] by (rule main_body_ok)
qed

lemma next_slot:
  fixes h :: int
  assumes "0 \<le> h" "h < 20"
  shows "(if (h + int k) mod 20 + 1 > 20 - 1 then 0 else (h + int k) mod 20 + 1) = (h + int (Suc k)) mod 20"
proof -
  have "h + int (Suc k) = (h + int k) + 1" by simp
  then have "(h + int (Suc k)) mod 20 = ((h + int k) mod 20 + 1) mod 20"
    by (simp only: mod_add_left_eq)
  moreover have "0 \<le> (h + int k) mod 20" "(h + int k) mod 20 < 20" by simp_all
  ultimately show ?thesis by (cases "(h + int k) mod 20 = 19") simp_all
qed

lemma mod_20_wrap:
  fixes x :: int
  assumes "20 \<le> x" "x < 40"
  shows "x mod 20 = x - 20"
proof -
  have "x mod 20 = (x - 20 + 20) mod 20" by simp
  also have "\<dots> = (x - 20) mod 20" by (rule mod_add_self2)
  also have "\<dots> = x - 20" using assms by (intro mod_pos_pos_trivial) simp_all
  finally show ?thesis .
qed

lemma back_at_start:
  fixes h :: int
  assumes "0 \<le> h" "h < 20" "k < 20"
  shows "(h + int (Suc k)) mod 20 = h \<longleftrightarrow> k = 19"
proof (cases "h + int (Suc k) < 20")
  case True
  with assms have "(h + int (Suc k)) mod 20 = h + int (Suc k)" by simp
  with True assms show ?thesis by simp
next
  case False
  with assms have "(h + int (Suc k)) mod 20 = h + int (Suc k) - 20"
    by (intro mod_20_wrap) simp_all
  then show ?thesis by auto
qed

lemma printHistory_loop_run:
  assumes h: "0 \<le> histInd s" "histInd s < 20"
    and slots: "\<And>m. m < 20 \<Longrightarrow> print_slot s ((histInd s + int m) mod 20) = Inr (ts ! m)"
    and len: "length ts = 20"
    and k: "k < 20"
  shows "printHistory_loop s ((histInd s + int k) mod 20) vis pr =
           Some (Inr (vis @ map (\<lambda>m. (histInd s + int m) mod 20) [k..<20], pr @ concat (drop k ts)))"
  using k
proof (induction "19 - k" arbitrary: k vis pr)
  case 0
  then have k: "k = 19" by simp
  have slot: "print_slot s ((histInd s + int k) mod 20) = Inr (ts ! k)"
    using slots [of k] k by simp
  have nxt: "(if (histInd s + int k) mod 20 + 1 > 20 - 1 then 0 else (histInd s + int k) mod 20 + 1) = histInd s"
    using next_slot [OF h, of k] back_at_start [OF h, of k] k by simp
  have "k < length ts" "length ts \<le> Suc k" using len k by simp_all
  then have "drop k ts = ts ! k # drop (Suc k) ts" "drop (Suc k) ts = []"
    by (simp_all only: Cons_nth_drop_Suc [symmetric] drop_all)
  then have dr: "drop k ts = [ts ! k]" by (simp only:)
  have up: "[k..<20] = [k]" using k by simp
  show ?case
    apply (subst printHistory_loop.simps)
    apply (simp only: slot sum.case Let_def HISTORY_SIZE_def nxt)
    apply (simp add: dr up)
    done
next
  case (Suc d)
  then have k: "k < 19" "d = 19 - Suc k" "Suc k < 20" by simp_all
  have slot: "print_slot s ((histInd s + int k) mod 20) = Inr (ts ! k)"
    using slots [of k] k by simp
  have nxt: "(if (histInd s + int k) mod 20 + 1 > 20 - 1 then 0 else (histInd s + int k) mod 20 + 1) = (histInd s + int (Suc k)) mod 20"
    using next_slot [OF h, of k] .
  have ne: "(histInd s + int (Suc k)) mod 20 \<noteq> histInd s"
    using back_at_start [OF h, of k] k by simp
  have dr: "drop k ts = ts ! k # drop (Suc k) ts"
    using len k by (simp add: Cons_nth_drop_Suc)
  have up: "[k..<20] = k # [Suc k..<20]"
    using k by (simp add: upt_conv_Cons)
  have IH: "printHistory_loop s ((histInd s + int (Suc k)) mod 20) (vis @ [(histInd s + int k) mod 20]) (pr @ ts ! k) =
     Some (Inr ((vis @ [(histInd s + int k) mod 20]) @ map (\<lambda>m. (histInd s + int m) mod 20) [Suc k..<20],
           (pr @ ts ! k) @ concat (drop (Suc k) ts)))"
    using Suc.hyps(1) [OF k(2) k(3)] .
  show ?case
    apply (subst printHistory_loop.simps)
    apply (simp only: slot sum.case Let_def HISTORY_SIZE_def nxt ne if_True not_False_eq_True IH)
    apply (simp add: dr up)
    done
qed

lemma hist_ok_print_slot:
  assumes "hist_ok s" and "0 \<le> j" and "j < 20"
  shows "\<exists>t. print_slot s j = Inr t"
proof -
  from assms(2,3) have j: "nat j < 20" by simp
  from assms(1) j have "case history s ! nat j of Uninit \<Rightarrow> False | Null \<Rightarrow> True
     | Ptr a \<Rightarrow> a \<noteq> buff \<and> a < brk s \<and> (\<exists>bs l. strs s a = Some bs \<and> c_str bs = Inr l) \<and>
                 (\<forall>k<20. history s ! k = Ptr a \<longrightarrow> k = nat j)"
    unfolding hist_ok_def by blast
  moreover have "\<not> (j < 0 \<or> HISTORY_SIZE \<le> j)"
    using assms(2,3) unfolding HISTORY_SIZE_def by linarith
  ultimately show ?thesis
    by (auto simp: print_slot_def split: ptr.splits)
qed




lemma hist_ok_printHistory_loop:
  assumes "hist_ok s"
  shows "\<exists>printed. printHistory_loop s (histInd s) [] pr =
           Some (Inr (map (\<lambda>m. (histInd s + int m) mod 20) [0..<20], printed))"
proof -
  from assms have h: "0 \<le> histInd s" "histInd s < 20"
    by (simp_all add: hist_ok_def HISTORY_SIZE_def)
  define ts where "ts = map (\<lambda>m. projr (print_slot s ((histInd s + int m) mod 20))) [0..<20]"
  have slots: "print_slot s ((histInd s + int m) mod 20) = Inr (ts ! m)" if "m < 20" for m
  proof -
    have "\<exists>t. print_slot s ((histInd s + int m) mod 20) = Inr t"
      by (rule hist_ok_print_slot [OF assms]) simp_all
    then show ?thesis using that by (auto simp: ts_def)
  qed
  have len: "length ts = 20" by (simp add: ts_def)
  have z: "(histInd s + int 0) mod 20 = histInd s" using h by simp
  from printHistory_loop_run [OF h slots len, of 0 "[]" pr] show ?thesis
    unfolding z by auto
qed

lemma recordcmd_succeeds:
  assumes ok: "hist_ok s" and bs: "strs s cmd = Some bs" "c_str bs = Inr line"
    and sz: "int (length line) + 1 \<le> sz"
  shows "\<exists>s'. recordcmd cmd sz s = Inr s'"
proof -
  from ok have h: "0 \<le> histInd s" "histInd s < 20"
    by (simp_all add: hist_ok_def HISTORY_SIZE_def)
  then have hn: "nat (histInd s) < 20" by simp
  have inside: "\<not> (histInd s < 0 \<or> HISTORY_SIZE \<le> histInd s)"
    using h unfolding HISTORY_SIZE_def by linarith
  from ok hn have slot: "case history s ! nat (histInd s) of Uninit \<Rightarrow> False | Null \<Rightarrow> True
       | Ptr a \<Rightarrow> a \<noteq> buff \<and> a < brk s \<and> (\<exists>bs l. strs s a = Some bs \<and> c_str bs = Inr l) \<and>
                 (\<forall>k<20. history s ! k = Ptr a \<longrightarrow> k = nat (histInd s))"
    unfolding hist_ok_def by blast
  define blk where "blk = map Some line @ Some NUL # replicate (nat sz - length line - 1) None"
  have "\<exists>s2. free_str (history s ! nat (histInd s))
          (s\<lparr>strs := (strs s)(brk s := Some blk), brk := Suc (brk s)\<rparr>) = Inr s2"
    using slot by (cases "history s ! nat (histInd s)") (auto simp: free_str_def)
  then obtain s2 where "free_str (history s ! nat (histInd s))
          (s\<lparr>strs := (strs s)(brk s := Some blk), brk := Suc (brk s)\<rparr>) = Inr s2" ..
  then show ?thesis
    using inside bs sz by (simp add: recordcmd_def Let_def blk_def)
qed

lemma record_line_effect:
  assumes ok: "hist_ok s" and nn: "NUL \<notin> set l"
  shows "\<exists>s'. record_line l s = Inr s' \<and> hist_ok s' \<and>
           histInd s' = (histInd s + 1) mod 20 \<and>
           print_slot s' (histInd s) = Inr (l @ [LF]) \<and>
           (\<forall>j. j \<noteq> histInd s \<longrightarrow> print_slot s' j = print_slot s j)"
proof -
  from ok obtain bs0 where bs0: "strs s buff = Some bs0" by (auto simp: hist_ok_def)
  define s0 where "s0 = store_line l s"
  have fr: "hist_frame s s0" by (simp add: s0_def store_line_def hist_frame_def bs0)
  with ok have ok0: "hist_ok s0" by (rule hist_frame_ok)
  have b0: "strs s0 buff = Some (map Some l @ Some NUL # drop (Suc (length l)) bs0)"
    by (simp add: s0_def store_line_def bs0)
  have c0: "c_str (map Some l @ Some NUL # drop (Suc (length l)) bs0) = Inr l"
    using nn by (rule c_str_store)
  from recordcmd_succeeds [OF ok0 b0 c0, of "int (length l) + 1"]
  obtain s' where s': "recordcmd buff (int (length l) + 1) s0 = Inr s'" by auto
  from recordcmd_effect [OF ok0 s'] b0 c0
  have eff: "hist_ok s'" "histInd s' = (histInd s0 + 1) mod HISTORY_SIZE"
    "print_slot s' (histInd s0) = Inr (l @ [LF])"
    "\<forall>j. j \<noteq> histInd s0 \<longrightarrow> print_slot s' j = print_slot s0 j"
    by auto
  have hh: "histInd s0 = histInd s" using fr by (simp add: hist_frame_def)
  have ps: "print_slot s0 j = print_slot s j" for j
    using ok fr by (rule hist_frame_print_slot)
  from s' eff show ?thesis
    by (simp add: record_line_def s0_def [symmetric] hh ps HISTORY_SIZE_def)
qed

lemma ring_step:
  assumes "m < 20"
  shows "drop (Suc (length ls)) (replicate 20 [] @ map f (ls @ [l])) ! m =
           (if m < 19 then drop (length ls) (replicate 20 [] @ map f ls) ! Suc m else f l)"
proof -
  define full where "full = replicate 20 [] @ map f ls"
  have len: "length full = 20 + length ls" by (simp add: full_def)
  have e: "replicate 20 [] @ map f (ls @ [l]) = full @ [f l]" by (simp add: full_def)
  have "Suc (length ls) \<le> length (full @ [f l])" using len by simp
  then have l1: "drop (Suc (length ls)) (full @ [f l]) ! m = (full @ [f l]) ! (Suc (length ls) + m)"
    by (rule nth_drop)
  have "length ls \<le> length full" using len by simp
  then have l2: "drop (length ls) full ! Suc m = full ! (length ls + Suc m)"
    by (rule nth_drop)
  have "(full @ [f l]) ! (Suc (length ls) + m) = (if m < 19 then full ! (length ls + Suc m) else f l)"
  proof (cases "m < 19")
    case True
    then have "Suc (length ls) + m < length full" using len by simp
    then have "(full @ [f l]) ! (Suc (length ls) + m) = full ! (Suc (length ls) + m)"
      by (simp only: nth_append if_True)
    with True show ?thesis by simp
  next
    case False
    with assms have "Suc (length ls) + m = length full" using len by simp
    then have "(full @ [f l]) ! (Suc (length ls) + m) = f l"
      by (simp only: nth_append_length)
    with False show ?thesis by simp
  qed
  with l1 l2 show ?thesis unfolding e full_def [symmetric] by simp
qed

lemma ring_concat:
  "concat (drop (length ls) (replicate 20 [] @ map f ls)) = concat (map f (drop (length ls - 20) ls))"
proof (cases "length ls \<le> 20")
  case True
  then have "drop (length ls) (replicate 20 [] @ map f ls) = replicate (20 - length ls) [] @ map f ls"
    by simp
  with True show ?thesis by simp
next
  case False
  then show ?thesis by (simp add: drop_map)
qed

lemma record_lines_ring:
  assumes "hist_ok s"
    and "\<forall>m<20. print_slot s ((histInd s + int m) mod 20) =
            Inr (drop (length old) (replicate 20 [] @ map (\<lambda>l. l @ [LF]) old) ! m)"
    and "\<forall>l\<in>set ls. NUL \<notin> set l"
  shows "\<exists>s'. record_lines ls s = Inr s' \<and> hist_ok s' \<and>
           (\<forall>m<20. print_slot s' ((histInd s' + int m) mod 20) =
              Inr (drop (length (old @ ls)) (replicate 20 [] @ map (\<lambda>l. l @ [LF]) (old @ ls)) ! m))"
  using assms
proof (induction ls arbitrary: s old)
  case Nil
  then show ?case by simp
next
  case (Cons l ls)
  from Cons.prems(1) have h: "0 \<le> histInd s" "histInd s < 20"
    by (simp_all add: hist_ok_def HISTORY_SIZE_def)
  from Cons.prems(3) have nn: "NUL \<notin> set l" and rest: "\<forall>l\<in>set ls. NUL \<notin> set l" by simp_all
  from record_line_effect [OF Cons.prems(1) nn] obtain s1 where
    s1: "record_line l s = Inr s1" "hist_ok s1" "histInd s1 = (histInd s + 1) mod 20"
      "print_slot s1 (histInd s) = Inr (l @ [LF])"
      "\<forall>j. j \<noteq> histInd s \<longrightarrow> print_slot s1 j = print_slot s j"
    by blast
  have inv1: "\<forall>m<20. print_slot s1 ((histInd s1 + int m) mod 20) =
            Inr (drop (length (old @ [l])) (replicate 20 [] @ map (\<lambda>l. l @ [LF]) (old @ [l])) ! m)"
  proof (intro allI impI)
    fix m :: nat assume m: "m < 20"
    have idx: "(histInd s1 + int m) mod 20 = (histInd s + int (Suc m)) mod 20"
      unfolding s1(3) by (simp add: mod_simps add.commute add.left_commute)
    show "print_slot s1 ((histInd s1 + int m) mod 20) =
            Inr (drop (length (old @ [l])) (replicate 20 [] @ map (\<lambda>l. l @ [LF]) (old @ [l])) ! m)"
    proof (cases "m < 19")
      case True
      then have "m \<noteq> 19" by simp
      with back_at_start [OF h m] have "(histInd s + int (Suc m)) mod 20 \<noteq> histInd s" by simp
      with s1(5) have "print_slot s1 ((histInd s + int (Suc m)) mod 20) =
          print_slot s ((histInd s + int (Suc m)) mod 20)" by simp
      also have "\<dots> = Inr (drop (length old) (replicate 20 [] @ map (\<lambda>l. l @ [LF]) old) ! Suc m)"
      proof -
        have "Suc m < 20" using True by simp
        from Cons.prems(2) [rule_format, OF this] show ?thesis .
      qed
      finally have "print_slot s1 ((histInd s1 + int m) mod 20) =
          Inr (drop (length old) (replicate 20 [] @ map (\<lambda>l. l @ [LF]) old) ! Suc m)"
        unfolding idx .
      moreover have "drop (Suc (length old)) (replicate 20 [] @ map (\<lambda>l. l @ [LF]) (old @ [l])) ! m =
          drop (length old) (replicate 20 [] @ map (\<lambda>l. l @ [LF]) old) ! Suc m"
        using ring_step [OF m, of old "\<lambda>l. l @ [LF]" l] True by (simp only: if_True)
      moreover have "length (old @ [l]) = Suc (length old)" by simp
      ultimately show ?thesis by (simp only:)
    next
      case False
      with m have "m = 19" by simp
      with back_at_start [OF h m] have "(histInd s + int (Suc m)) mod 20 = histInd s" by simp
      with s1(4) have "print_slot s1 ((histInd s1 + int m) mod 20) = Inr (l @ [LF])"
        unfolding idx by simp
      moreover have "drop (Suc (length old)) (replicate 20 [] @ map (\<lambda>l. l @ [LF]) (old @ [l])) ! m =
          l @ [LF]"
        using ring_step [OF m, of old "\<lambda>l. l @ [LF]" l] False by (simp only: if_False)
      moreover have "length (old @ [l]) = Suc (length old)" by simp
      ultimately show ?thesis by (simp only:)
    qed
  qed
  from Cons.IH [OF s1(2) inv1 rest] obtain s' where
    "record_lines ls s1 = Inr s'" "hist_ok s'"
    "\<forall>m<20. print_slot s' ((histInd s' + int m) mod 20) =
              Inr (drop (length ((old @ [l]) @ ls)) (replicate 20 [] @ map (\<lambda>l. l @ [LF]) ((old @ [l]) @ ls)) ! m)"
    by blast
  moreover have "(old @ [l]) @ ls = old @ l # ls" by simp
  ultimately show ?case using s1(1) by (simp only: record_lines.simps sum.case) blast
qed

text \<open>
  C6.  After any list of lines has been recorded from the initial state, \<^verbatim>\<open>printHistory\<close>
  prints a line feed and then the last 20 of the lines, oldest first, each followed by a
  line feed: all of them when at most 20 were recorded, and none of the earlier ones
  otherwise.  (A line is a C string: it holds no \<open>NUL\<close>.)
\<close>

theorem printHistory_last_lines:
  assumes "\<forall>l\<in>set ls. NUL \<notin> set l"
  shows "\<exists>s. record_lines ls shell_init = Inr s \<and>
           printHistory s =
             Some (Inr (s\<lparr>out := out s @ LF # concat (map (\<lambda>l. l @ [LF]) (drop (length ls - 20) ls))\<rparr>))"
proof -
  have init: "\<forall>m<20. print_slot shell_init ((histInd shell_init + int m) mod 20) =
            Inr (drop (length []) (replicate 20 [] @ map (\<lambda>l. l @ [LF]) []) ! m)"
  proof (intro allI impI)
    fix m :: nat assume m: "m < 20"
    then have "(histInd shell_init + int m) mod 20 = int m" by (simp add: shell_init_def)
    moreover have "print_slot shell_init (int m) = Inr []"
      using m by (simp add: print_slot_def shell_init_def HISTORY_SIZE_def)
    ultimately show "print_slot shell_init ((histInd shell_init + int m) mod 20) =
            Inr (drop (length []) (replicate 20 [] @ map (\<lambda>l. l @ [LF]) []) ! m)"
      using m by simp
  qed
  from record_lines_ring [OF hist_ok_init init assms] obtain s where
    s: "record_lines ls shell_init = Inr s" "hist_ok s"
      "\<forall>m<20. print_slot s ((histInd s + int m) mod 20) =
              Inr (drop (length ls) (replicate 20 [] @ map (\<lambda>l. l @ [LF]) ls) ! m)"
    by auto
  from s(2) have h: "0 \<le> histInd s" "histInd s < 20"
    by (simp_all add: hist_ok_def HISTORY_SIZE_def)
  define ts where "ts = drop (length ls) (replicate 20 [] @ map (\<lambda>l. l @ [LF]) ls)"
  have len: "length ts = 20" by (simp add: ts_def)
  have slots: "print_slot s ((histInd s + int m) mod 20) = Inr (ts ! m)" if "m < 20" for m
    using s(3) that by (simp add: ts_def)
  have z: "(histInd s + int 0) mod 20 = histInd s" using h by simp
  from printHistory_loop_run [OF h slots len, of 0 "[]" "[LF]"]
  have "printHistory_loop s (histInd s) [] [LF] =
          Some (Inr (map (\<lambda>m. (histInd s + int m) mod 20) [0..<20], [LF] @ concat ts))"
    unfolding z by simp
  then have "printHistory s = Some (Inr (s\<lparr>out := out s @ [LF] @ concat ts\<rparr>))"
    by (simp add: printHistory_def)
  moreover have "concat ts = concat (map (\<lambda>l. l @ [LF]) (drop (length ls - 20) ls))"
    unfolding ts_def by (rule ring_concat)
  ultimately show ?thesis using s(1) by simp
qed


theorem printHistory_last_lines_witness:
  "(\<exists>s. record_lines [''ls'', ''pwd'', ''date''] shell_init = Inr s \<and>
        printHistory s = Some (Inr (s\<lparr>out := out s @ LF # ''ls'' @ LF # ''pwd'' @ LF # ''date'' @ [LF]\<rparr>))) \<and>
   (\<exists>s. record_lines [''a'', ''b'', ''c'', ''d'', ''e'', ''f'', ''g'', ''h'', ''i'', ''j'', ''k'', ''l'', ''m'', ''n'', ''o'', ''p'', ''q'', ''r'', ''s'', ''t'', ''u'', ''v''] shell_init = Inr s \<and>
        printHistory s = Some (Inr (s\<lparr>out := out s @ LF # concat (map (\<lambda>l. l @ [LF]) [''c'', ''d'', ''e'', ''f'', ''g'', ''h'', ''i'', ''j'', ''k'', ''l'', ''m'', ''n'', ''o'', ''p'', ''q'', ''r'', ''s'', ''t'', ''u'', ''v''])\<rparr>)))"
  using printHistory_last_lines [of "[''ls'', ''pwd'', ''date'']"]
    printHistory_last_lines [of "[''a'', ''b'', ''c'', ''d'', ''e'', ''f'', ''g'', ''h'', ''i'', ''j'', ''k'', ''l'', ''m'', ''n'', ''o'', ''p'', ''q'', ''r'', ''s'', ''t'', ''u'', ''v'']"]
  by simp

section \<open>The history entry and the buffer\<close>

lemma strchr_found:
  "ch \<notin> set l \<Longrightarrow> NUL \<notin> set l \<Longrightarrow> strchr (map Some l @ Some ch # r) ch = Inr (Some (length l))"
  by (induction l) auto

lemma main_step_records_line:
  assumes ok: "hist_ok s" and ni: "interrupted s = 0"
    and line: "line \<noteq> []" "NUL \<notin> set line" "LF \<notin> set line" "length line < buffSize"
    and step: "main_step (Some (line @ [LF])) fork_ret waits s = Some (Inr (Continue s'))"
  shows "history s' ! nat (histInd s) = Ptr (brk s) \<and> brk s \<noteq> buff \<and>
         (\<exists>bs. strs s' (brk s) = Some bs \<and> c_str bs = Inr line) \<and>
         print_slot s' (histInd s) = Inr (line @ [LF]) \<and>
         histInd s' = (histInd s + 1) mod HISTORY_SIZE"
proof -
  from ok obtain bs0 where bs0: "strs s buff = Some bs0" by (auto simp: hist_ok_def)
  from ok have bb: "buff < brk s" by (simp add: hist_ok_def)
  define r where "r = int (length line) + 1"
  define s1 where "s1 = snd (read_stdin (Some (line @ [LF])) s)"
  have rd: "read_stdin (Some (line @ [LF])) s = (r, s1)"
    using line(4) by (simp add: read_stdin_def r_def s1_def Let_def)
  have b1: "strs s1 buff = Some (map Some line @ Some LF # drop (Suc (length line)) bs0)"
    using line(4) by (simp add: s1_def read_stdin_def Let_def bs0)
  have f1: "hist_frame s s1" using rd by (rule read_stdin_frame)
  have i1: "interrupted s1 = 0" using ni line(4) by (simp add: s1_def read_stdin_def Let_def)
  have rpos: "r > 1" using line(1) by (simp add: r_def)
  from step rd rpos have body: "main_body r fork_ret waits s1 = Some (Inr (Continue s'))"
    by (simp add: main_step_def)
  have sc: "strchr (map Some line @ Some LF # drop (Suc (length line)) bs0) LF = Inr (Some (length line))"
    using line(3,2) by (rule strchr_found)
  define bs1 where "bs1 = map Some line @ Some NUL # drop (Suc (length line)) bs0"
  have upd: "(map Some line @ Some LF # drop (Suc (length line)) bs0)[length line := Some NUL] = bs1"
    by (simp add: bs1_def list_update_append)
  define s1' where "s1' = s1\<lparr>strs := (strs s1)(buff := Some bs1)\<rparr>"
  from main_body_Continue [OF body] rpos i1 b1 sc upd
  obtain s2 ret s3 n where
    rec: "recordcmd buff r s1' = Inr s2" and
    ex: "execcmd fork_ret waits buff s2 = Some (Inr (Returned ret s3 n))" and
    s': "s' = s3\<lparr>interrupted := 0, out := out s3 @ SHELL_PROMPT\<rparr>"
    by (auto simp: s1'_def)
  have f1': "hist_frame s s1'"
    using f1 by (simp add: s1'_def hist_frame_def)
  with ok have ok1: "hist_ok s1'" by (rule hist_frame_ok)
  have same: "histInd s1' = histInd s" "brk s1' = brk s"
    using line(4) by (simp_all add: s1'_def s1_def read_stdin_def Let_def)
  have cs: "c_str bs1 = Inr line" unfolding bs1_def using line(2) by (rule c_str_store)
  have "strs s1' buff = Some bs1" by (simp add: s1'_def)
  with recordcmd_effect [OF ok1 rec] cs same
  have eff: "hist_ok s2" "histInd s2 = (histInd s + 1) mod HISTORY_SIZE"
    "history s2 ! nat (histInd s) = Ptr (brk s)"
    "\<exists>bl. strs s2 (brk s) = Some bl \<and> c_str bl = Inr line"
    "print_slot s2 (histInd s) = Inr (line @ [LF])"
    by auto
  have f3: "hist_frame s2 s3" using ex by (rule execcmd_frame)
  moreover have "hist_frame s3 s'" using s' by (simp add: hist_frame_def)
  ultimately have f: "hist_frame s2 s'" by (rule hist_frame_trans)
  have nb: "brk s \<noteq> buff" using bb by simp
  from f nb have "strs s' (brk s) = strs s2 (brk s)" "history s' = history s2" "histInd s' = histInd s2"
    by (simp_all add: hist_frame_def)
  moreover have "print_slot s' (histInd s) = print_slot s2 (histInd s)"
    using eff(1) f by (rule hist_frame_print_slot)
  ultimately show ?thesis using eff nb by simp
qed

section \<open>The wait of the dispatcher\<close>

lemma wait_loop_found:
  "waits n = pid \<Longrightarrow> k \<le> n \<Longrightarrow> (\<forall>j. k \<le> j \<and> j < n \<longrightarrow> waits j \<noteq> pid) \<Longrightarrow>
   wait_loop pid waits k = Some (Suc n)"
proof (induction "n - k" arbitrary: k)
  case 0
  then have "k = n" by simp
  with 0 show ?case by (subst wait_loop.simps) simp
next
  case (Suc d)
  then have "waits k \<noteq> pid" "d = n - Suc k" "Suc k \<le> n" by auto
  moreover from Suc.prems have "\<forall>j. Suc k \<le> j \<and> j < n \<longrightarrow> waits j \<noteq> pid" by auto
  ultimately have "wait_loop pid waits (Suc k) = Some (Suc n)"
    using Suc.hyps(1) Suc.prems(1) by blast
  with \<open>waits k \<noteq> pid\<close> show ?case by (subst wait_loop.simps) simp
qed

lemma wait_loop_Some:
  assumes "wait_loop pid waits k = Some m"
  shows "\<exists>n. m = Suc n \<and> k \<le> n \<and> waits n = pid \<and> (\<forall>j. k \<le> j \<and> j < n \<longrightarrow> waits j \<noteq> pid)"
  using assms
proof (induction pid waits k m rule: wait_loop.raw_induct [rotated 1, consumes 1])
  case (1 wl pid waits k m)
  show ?case
  proof (cases "pid = waits k")
    case True
    with 1(2) show ?thesis by auto
  next
    case False
    with 1(2) have "wl pid waits (Suc k) = Some m" by simp
    from 1(1) [OF this] obtain n where n: "m = Suc n" "Suc k \<le> n" "waits n = pid"
      "\<forall>j. Suc k \<le> j \<and> j < n \<longrightarrow> waits j \<noteq> pid" by blast
    have "\<forall>j. k \<le> j \<and> j < n \<longrightarrow> waits j \<noteq> pid"
    proof (intro allI impI)
      fix j assume j: "k \<le> j \<and> j < n"
      show "waits j \<noteq> pid"
      proof (cases "j = k")
        case True
        with False show ?thesis by simp
      next
        case False
        with j n(4) show ?thesis by simp
      qed
    qed
    with n show ?thesis by auto
  qed
qed

lemma wait_loop_iff:
  "wait_loop pid waits 0 = Some m \<longleftrightarrow>
     (\<exists>n. m = Suc n \<and> waits n = pid \<and> (\<forall>j<n. waits j \<noteq> pid))"
proof
  assume "wait_loop pid waits 0 = Some m"
  from wait_loop_Some [OF this] show "\<exists>n. m = Suc n \<and> waits n = pid \<and> (\<forall>j<n. waits j \<noteq> pid)"
    by auto
next
  assume "\<exists>n. m = Suc n \<and> waits n = pid \<and> (\<forall>j<n. waits j \<noteq> pid)"
  then obtain n where "m = Suc n" "waits n = pid" "\<forall>j<n. waits j \<noteq> pid" by blast
  then show "wait_loop pid waits 0 = Some m"
    using wait_loop_found [of waits n pid 0] by simp
qed

lemma wait_loop_None:
  "wait_loop pid waits 0 = None \<longleftrightarrow> (\<forall>n. waits n \<noteq> pid)"
proof
  assume none: "wait_loop pid waits 0 = None"
  show "\<forall>n. waits n \<noteq> pid"
  proof (rule ccontr)
    assume "\<not> (\<forall>n. waits n \<noteq> pid)"
    then have ex: "\<exists>n. waits n = pid" by simp
    define n where "n = (LEAST n. waits n = pid)"
    have "waits n = pid" unfolding n_def using ex by (rule LeastI_ex)
    moreover have "\<forall>j. 0 \<le> j \<and> j < n \<longrightarrow> waits j \<noteq> pid"
      unfolding n_def using not_less_Least by blast
    ultimately have "wait_loop pid waits 0 = Some (Suc n)"
      by (intro wait_loop_found) simp_all
    with none show False by simp
  qed
next
  assume never: "\<forall>n. waits n \<noteq> pid"
  show "wait_loop pid waits 0 = None"
  proof (cases "wait_loop pid waits 0")
    case None
    then show ?thesis .
  next
    case (Some m)
    from wait_loop_Some [OF this] never show ?thesis by blast
  qed
qed

lemma addChild_effect:
  assumes "0 \<le> numChildren s" "numChildren s < CHILDREN_SIZE" "length (children s) = 32"
  shows "\<exists>s'. addChild pid s = Inr s' \<and> numChildren s' = numChildren s + 1 \<and>
          children s' ! nat (numChildren s) = Ptr (brk s) \<and> pids s' (brk s) = Some pid \<and>
          child_at s' (numChildren s) = Inr (brk s, pid)"
proof -
  have "nat (numChildren s) < length (children s)"
    using assms by (simp add: CHILDREN_SIZE_def)
  moreover have "\<not> (numChildren s < 0 \<or> CHILDREN_SIZE \<le> numChildren s)"
    using assms(1,2) by linarith
  ultimately show ?thesis
    using assms by (simp add: addChild_def Let_def child_at_def)
qed

text \<open>
  C8.  In the parent, after a line that the dispatcher could parse: a foreground command
  returns after the call of \<^verbatim>\<open>wait\<close> that first reports the pid \<^verbatim>\<open>fork\<close> returned,
  every earlier report being another pid and dropped, and it never returns when that pid
  is never reported; a background command calls \<^verbatim>\<open>wait\<close> not once, and, the list of
  children having room, returns with the pid stored as its next entry.
\<close>

theorem execcmd_waits_for_own_child:
  assumes "strs s cmd = Some bs"
    and "execcmd_tokens bs = Inr (tokens, i, bs1)"
    and "execcmd_marker tokens i bs1 = Inr (tokens', bs2, background)"
    and "0 < fork_ret"
  shows "if background = 0
         then (\<forall>r. execcmd fork_ret waits cmd s = Some r \<longleftrightarrow>
                 (\<exists>n. waits n = fork_ret \<and> (\<forall>j<n. waits j \<noteq> fork_ret) \<and>
                      r = Inr (Returned 1 (s\<lparr>strs := (strs s)(cmd := Some bs2)\<rparr>) (Suc n)))) \<and>
              (execcmd fork_ret waits cmd s = None \<longleftrightarrow> (\<forall>n. waits n \<noteq> fork_ret))
         else (0 \<le> numChildren s \<and> numChildren s < CHILDREN_SIZE \<and> length (children s) = 32 \<longrightarrow>
                (\<exists>s'. execcmd fork_ret waits cmd s = Some (Inr (Returned 1 s' 0)) \<and>
                      numChildren s' = numChildren s + 1 \<and>
                      child_at s' (numChildren s) = Inr (brk s, fork_ret)))"
proof (cases "background = 0")
  case True
  define s1 where "s1 = s\<lparr>strs := (strs s)(cmd := Some bs2)\<rparr>"
  have ex: "execcmd fork_ret waits cmd s =
      (case wait_loop fork_ret waits 0 of None \<Rightarrow> None | Some n \<Rightarrow> Some (Inr (Returned 1 s1 n)))"
    unfolding s1_def using assms True by (simp add: execcmd_def Let_def)
  have a: "execcmd fork_ret waits cmd s = Some r \<longleftrightarrow>
                 (\<exists>n. waits n = fork_ret \<and> (\<forall>j<n. waits j \<noteq> fork_ret) \<and>
                      r = Inr (Returned 1 s1 (Suc n)))" for r
  proof
    assume "execcmd fork_ret waits cmd s = Some r"
    with ex obtain m where m: "wait_loop fork_ret waits 0 = Some m" "r = Inr (Returned 1 s1 m)"
      by (auto split: option.splits)
    from m(1) obtain n where "m = Suc n" "waits n = fork_ret" "\<forall>j<n. waits j \<noteq> fork_ret"
      unfolding wait_loop_iff by blast
    with m(2) show "\<exists>n. waits n = fork_ret \<and> (\<forall>j<n. waits j \<noteq> fork_ret) \<and>
                      r = Inr (Returned 1 s1 (Suc n))" by blast
  next
    assume "\<exists>n. waits n = fork_ret \<and> (\<forall>j<n. waits j \<noteq> fork_ret) \<and>
                      r = Inr (Returned 1 s1 (Suc n))"
    then obtain n where n: "waits n = fork_ret" "\<forall>j<n. waits j \<noteq> fork_ret"
      "r = Inr (Returned 1 s1 (Suc n))" by blast
    from n(1,2) have "wait_loop fork_ret waits 0 = Some (Suc n)"
      unfolding wait_loop_iff by blast
    with ex n(3) show "execcmd fork_ret waits cmd s = Some r" by simp
  qed
  have b: "execcmd fork_ret waits cmd s = None \<longleftrightarrow> (\<forall>n. waits n \<noteq> fork_ret)"
    using ex wait_loop_None [of fork_ret waits] by (auto split: option.splits)
  from a b show ?thesis unfolding if_P [OF True] s1_def by blast
next
  case False
  define s1 where "s1 = s\<lparr>strs := (strs s)(cmd := Some bs2)\<rparr>"
  have ex: "execcmd fork_ret waits cmd s =
      (case addChild fork_ret s1 of Inl f \<Rightarrow> Some (Inl f) | Inr s2 \<Rightarrow> Some (Inr (Returned 1 s2 0)))"
    unfolding s1_def using assms False by (simp add: execcmd_def Let_def)
  have "\<exists>s'. execcmd fork_ret waits cmd s = Some (Inr (Returned 1 s' 0)) \<and>
                      numChildren s' = numChildren s + 1 \<and>
                      child_at s' (numChildren s) = Inr (brk s, fork_ret)"
    if "0 \<le> numChildren s \<and> numChildren s < CHILDREN_SIZE \<and> length (children s) = 32"
  proof -
    from that have "0 \<le> numChildren s1" "numChildren s1 < CHILDREN_SIZE" "length (children s1) = 32"
      by (simp_all add: s1_def)
    from addChild_effect [OF this, of fork_ret] obtain s' where
      "addChild fork_ret s1 = Inr s'" "numChildren s' = numChildren s1 + 1"
      "child_at s' (numChildren s1) = Inr (brk s1, fork_ret)" by blast
    with ex show ?thesis by (simp add: s1_def)
  qed
  then show ?thesis unfolding if_not_P [OF False] by blast
qed


theorem execcmd_waits_for_own_child_witness:
  "(\<exists>s'. execcmd 7 (\<lambda>n. if n < 2 then 5 else 7) buff (store_line ''ls'' shell_init) =
           Some (Inr (Returned 1 s' 3))) \<and>
   execcmd 7 (\<lambda>n. 5) buff (store_line ''ls'' shell_init) = None \<and>
   (\<exists>s'. execcmd 7 (\<lambda>n. 5) buff (store_line ''ls &'' shell_init) = Some (Inr (Returned 1 s' 0)) \<and>
         numChildren s' = 1 \<and> child_at s' 0 = Inr (1, 7))"
proof -
  define fg where "fg = store_line ''ls'' shell_init"
  define bg where "bg = store_line ''ls &'' shell_init"
  have "\<exists>bs tokens i bs1 tokens' bs2.
          strs fg buff = Some bs \<and> execcmd_tokens bs = Inr (tokens, i, bs1) \<and>
          execcmd_marker tokens i bs1 = Inr (tokens', bs2, 0)"
    by (simp add: fg_def store_line_def dispatch_defs)
  then obtain bs tokens i bs1 tokens' bs2 where
    f: "strs fg buff = Some bs" "execcmd_tokens bs = Inr (tokens, i, bs1)"
       "execcmd_marker tokens i bs1 = Inr (tokens', bs2, 0)" by blast
  have "\<exists>bs tokens i bs1 tokens' bs2.
          strs bg buff = Some bs \<and> execcmd_tokens bs = Inr (tokens, i, bs1) \<and>
          execcmd_marker tokens i bs1 = Inr (tokens', bs2, 1)"
    by (simp add: bg_def store_line_def dispatch_defs)
  then obtain cs ctokens ci cs1 ctokens' cs2 where
    b: "strs bg buff = Some cs" "execcmd_tokens cs = Inr (ctokens, ci, cs1)"
       "execcmd_marker ctokens ci cs1 = Inr (ctokens', cs2, 1)" by blast
  have pos: "(0::int) < 7" by simp
  from execcmd_waits_for_own_child [OF f pos, of "\<lambda>n. if n < 2 then 5 else 7"]
  have "\<forall>r. execcmd 7 (\<lambda>n. if n < 2 then 5 else 7) buff fg = Some r \<longleftrightarrow>
          (\<exists>n. (if n < 2 then 5 else 7) = (7::int) \<and> (\<forall>j<n. (if j < 2 then 5 else 7) \<noteq> (7::int)) \<and>
               r = Inr (Returned 1 (fg\<lparr>strs := (strs fg)(buff := Some bs2)\<rparr>) (Suc n)))"
    by simp
  moreover have "(if (2::nat) < 2 then 5 else 7) = (7::int) \<and> (\<forall>j<2::nat. (if j < 2 then 5 else 7) \<noteq> (7::int))"
    by simp
  ultimately have w1: "execcmd 7 (\<lambda>n. if n < 2 then 5 else 7) buff fg =
      Some (Inr (Returned 1 (fg\<lparr>strs := (strs fg)(buff := Some bs2)\<rparr>) (Suc 2)))"
    by blast
  from execcmd_waits_for_own_child [OF f pos, of "\<lambda>n. 5"]
  have w2: "execcmd 7 (\<lambda>n. 5) buff fg = None" by simp
  have reg: "numChildren bg = 0" "length (children bg) = 32" "brk bg = 1"
    by (simp_all add: bg_def store_line_def shell_init_def)
  from execcmd_waits_for_own_child [OF b pos, of "\<lambda>n. 5"] reg
  have w3: "\<exists>s'. execcmd 7 (\<lambda>n. 5) buff bg = Some (Inr (Returned 1 s' 0)) \<and>
         numChildren s' = 1 \<and> child_at s' 0 = Inr (1, 7)"
    by (simp add: CHILDREN_SIZE_def)
  from w1 w2 w3 show ?thesis unfolding fg_def bg_def by (simp add: numeral_3_eq_3)
qed

section \<open>Signals and the history\<close>

lemma same_hist_refl: "same_hist s s"
  by (simp add: same_hist_def)

lemma same_hist_trans: "same_hist s s' \<Longrightarrow> same_hist s' s'' \<Longrightarrow> same_hist s s''"
  by (simp add: same_hist_def)

lemma same_hist_sym: "same_hist s s' \<Longrightarrow> same_hist s' s"
  by (simp add: same_hist_def)

lemma same_hist_frame: "same_hist s s' \<Longrightarrow> hist_frame s s'"
  by (simp add: same_hist_def hist_frame_def)

lemma removeChild_loop_same:
  "removeChild_loop pid openIndex i s = Inr s' \<Longrightarrow> same_hist s s'"
proof (induction pid openIndex i s rule: removeChild_loop.induct)
  case (1 pid openIndex i s)
  from "1.prems" have unrolled:
    "(if i < numChildren s then
        (case child_at s i of
           Inl f \<Rightarrow> Inl f
         | Inr (a, v) \<Rightarrow>
             if v = pid then
               removeChild_loop pid i (i + 1)
                 (s\<lparr>pids := (pids s)(a := None), numChildren := numChildren s - 1\<rparr>)
             else if openIndex \<noteq> 0 then
               (if i - 1 < 0 then Inl OutOfBounds
                else removeChild_loop pid openIndex (i + 1)
                       (s\<lparr>children := (children s)[nat (i - 1) := children s ! nat i]\<rparr>))
             else removeChild_loop pid openIndex (i + 1) s)
      else Inr s) = Inr s'"
    by (subst (asm) removeChild_loop.simps)
  show ?case
  proof (cases "i < numChildren s")
    case False
    with unrolled show ?thesis by (simp add: same_hist_def)
  next
    case True
    with unrolled obtain a v where av: "child_at s i = Inr (a, v)"
      by (auto split: sum.splits)
    show ?thesis
    proof (cases "v = pid")
      case eq: True
      with unrolled True av
      have "removeChild_loop pid i (i + 1)
              (s\<lparr>pids := (pids s)(a := None), numChildren := numChildren s - 1\<rparr>) = Inr s'"
        by simp
      from "1.IH"(1) [OF True av refl eq this]
      show ?thesis by (simp add: same_hist_def)
    next
      case False
      show ?thesis
      proof (cases "openIndex \<noteq> 0")
        case nz: True
        with unrolled \<open>i < numChildren s\<close> av False
        have nn: "\<not> i - 1 < 0" and
          "removeChild_loop pid openIndex (i + 1)
              (s\<lparr>children := (children s)[nat (i - 1) := children s ! nat i]\<rparr>) = Inr s'"
          by (auto split: if_splits)
        from "1.IH"(2) [OF True av refl False nz nn this(2)]
        show ?thesis by (simp add: same_hist_def)
      next
        case F2: False
        with unrolled True av False
        have "removeChild_loop pid openIndex (i + 1) s = Inr s'" by simp
        from "1.IH"(3) [OF True av refl False F2 this]
        show ?thesis .
      qed
    qed
  qed
qed

lemma reap_loop_same: "reap_loop g exited s = Inr s' \<Longrightarrow> same_hist s s'"
proof (induction exited arbitrary: s)
  case Nil
  then show ?case by (simp add: same_hist_refl)
next
  case (Cons pid exited)
  show ?case
  proof (cases "pid > 0")
    case False
    with Cons.prems show ?thesis by (simp add: same_hist_refl)
  next
    case True
    with Cons.prems obtain s1 where s1: "removeChild g pid s = Inr s1" "reap_loop g exited s1 = Inr s'"
      by (auto split: sum.splits)
    from s1(1) have "same_hist s s1" unfolding removeChild_def by (rule removeChild_loop_same)
    with Cons.IH [OF s1(2)] show ?thesis by (rule same_hist_trans [rotated])
  qed
qed

lemma printHistory_same: "printHistory s = Some (Inr s') \<Longrightarrow> same_hist s s'"
  by (auto simp: printHistory_def same_hist_def split: option.splits sum.splits)

lemma sig_handler_same: "sig_handler sig g exited s = Some (Inr s') \<Longrightarrow> same_hist s s'"
proof -
  assume h: "sig_handler sig g exited s = Some (Inr s')"
  consider "sig = SIGINT" | "sig \<noteq> SIGINT" "sig = SIGCHLD" | "sig \<noteq> SIGINT" "sig \<noteq> SIGCHLD" by blast
  then show ?thesis
  proof cases
    case 1
    with h obtain s1 where "printHistory s = Some (Inr s1)" "s' = s1\<lparr>interrupted := 1\<rparr>"
      by (auto simp: sig_handler_def split: option.splits sum.splits)
    with printHistory_same [of s s1] show ?thesis by (simp add: same_hist_def)
  next
    case 2
    with h obtain s1 where "reap_loop g exited s = Inr s1" "s' = s1\<lparr>interrupted := 1\<rparr>"
      by (auto simp: sig_handler_def split: option.splits sum.splits)
    with reap_loop_same [of g exited s s1] show ?thesis by (simp add: same_hist_def)
  next
    case 3
    with h show ?thesis by (auto simp: sig_handler_def same_hist_def)
  qed
qed

lemma handle_sigs_same: "handle_sigs hs s = Some (Inr s') \<Longrightarrow> same_hist s s'"
proof (induction hs arbitrary: s)
  case Nil
  then show ?case by (simp add: same_hist_refl)
next
  case (Cons h hs)
  obtain sig g exited where h: "h = (sig, g, exited)" by (cases h)
  with Cons.prems obtain s1 where s1: "sig_handler sig g exited s = Some (Inr s1)"
    "handle_sigs hs s1 = Some (Inr s')"
    by (auto split: option.splits sum.splits)
  from s1(1) have "same_hist s s1" by (rule sig_handler_same)
  moreover from s1(2) have "same_hist s1 s'" by (rule Cons.IH)
  ultimately show ?case by (rule same_hist_trans)
qed

lemma same_frame_refl: "same_frame a a"
  by (simp add: same_frame_def same_hist_refl)

lemma free_str_same:
  "same_hist s t \<Longrightarrow> free_str p s = Inr s' \<Longrightarrow> \<exists>t'. free_str p t = Inr t' \<and> same_hist s' t'"
  by (auto simp: free_str_def same_hist_def split: ptr.splits option.splits)

lemma stmt_same:
  assumes "same_frame a b" and "recordcmd_stmt st cmd a = Inr a'"
  shows "\<exists>b'. recordcmd_stmt st cmd b = Inr b' \<and> same_frame a' b'"
proof (cases st)
  case Free_old
  with assms(2) obtain s' where s': "free_str (rc_old a) (rc_shell a) = Inr s'" "a' = a\<lparr>rc_shell := s'\<rparr>"
    by (auto split: sum.splits)
  from assms(1) have "same_hist (rc_shell a) (rc_shell b)" "rc_old b = rc_old a"
    by (simp_all add: same_frame_def)
  with free_str_same [OF this(1) s'(1)] obtain t' where
    "free_str (rc_old b) (rc_shell b) = Inr t'" "same_hist s' t'" by auto
  with Free_old s'(2) assms(1) show ?thesis by (simp add: same_frame_def)
qed (use assms in \<open>auto simp: same_frame_def same_hist_def Let_def split: if_splits ptr.splits option.splits sum.splits\<close>)

lemma rc_run_same:
  assumes "same_frame a b" and "rc_run sts k sigs cmd a = Some (Inr a')"
  shows "\<exists>b'. rc_run sts k (\<lambda>k. []) cmd b = Some (Inr b') \<and> same_frame a' b'"
  using assms
proof (induction sts arbitrary: a b k)
  case Nil
  then show ?case by simp
next
  case (Cons st sts)
  from Cons.prems(2) obtain s1 a1 where
    s1: "handle_sigs (sigs k) (rc_shell a) = Some (Inr s1)" and
    a1: "recordcmd_stmt st cmd (a\<lparr>rc_shell := s1\<rparr>) = Inr a1" and
    rest: "rc_run sts (Suc k) sigs cmd a1 = Some (Inr a')"
    by (auto split: option.splits sum.splits)
  from s1 have "same_hist (rc_shell a) s1" by (rule handle_sigs_same)
  with Cons.prems(1) have "same_frame (a\<lparr>rc_shell := s1\<rparr>) b"
    by (simp add: same_frame_def same_hist_def)
  from stmt_same [OF this a1] obtain b1 where
    b1: "recordcmd_stmt st cmd b = Inr b1" "same_frame a1 b1" by blast
  from Cons.IH [OF b1(2) rest] obtain b' where
    "rc_run sts (Suc k) (\<lambda>k. []) cmd b1 = Some (Inr b')" "same_frame a' b'" by blast
  with b1(1) show ?case by simp
qed

text \<open>
  With no signal the steps of \<^verbatim>\<open>recordcmd\<close> make up \<open>recordcmd\<close>, and the round is
  \<open>main_step\<close>.
\<close>

lemma recordcmd_refined:
  assumes "cmd \<noteq> brk s"
  shows "rc_run recordcmd_body k (\<lambda>k. []) cmd \<lparr>rc_shell = s, rc_sz = sz, rc_old = p, rc_entry = e\<rparr> =
         Some (case recordcmd cmd sz s of
                 Inl f \<Rightarrow> Inl f
               | Inr s' \<Rightarrow> Inr \<lparr>rc_shell = s', rc_sz = sz, rc_old = history s ! nat (histInd s),
                                rc_entry = Ptr (brk s)\<rparr>)"
proof (cases "histInd s < 0 \<or> HISTORY_SIZE \<le> histInd s")
  case True
  then show ?thesis by (simp add: recordcmd_body_def recordcmd_def)
next
  case inside: False
  show ?thesis
  proof (cases "strs s cmd")
    case None
    with inside assms show ?thesis by (simp add: recordcmd_body_def recordcmd_def Let_def)
  next
    case (Some bs)
    show ?thesis
    proof (cases "c_str bs")
      case (Inl f)
      with inside assms Some show ?thesis by (simp add: recordcmd_body_def recordcmd_def Let_def)
    next
      case (Inr line)
      have len: "nat sz < Suc (length line) \<longleftrightarrow> sz < int (length line) + 1" by linarith
      show ?thesis
      proof (cases "sz < int (length line) + 1")
        case True
        with inside assms Some Inr len show ?thesis
          by (simp add: recordcmd_body_def recordcmd_def Let_def)
      next
        case fits: False
        define block where "block = map Some line @ Some NUL # replicate (nat sz - length line - 1) None"
        define s1 where "s1 = s\<lparr>brk := Suc (brk s), strs := (strs s)(brk s := Some block)\<rparr>"
        have swap: "s\<lparr>strs := (strs s)(brk s := Some block), brk := Suc (brk s)\<rparr> = s1"
          by (simp add: s1_def)
        have blk: "map Some line @ Some NUL # drop (Suc (length line)) (replicate (nat sz) None) = block"
          by (simp add: block_def)
        have three: "rc_run recordcmd_body k (\<lambda>k. []) cmd \<lparr>rc_shell = s, rc_sz = sz, rc_old = p, rc_entry = e\<rparr> =
              rc_run [Free_old, Store, Incr, Wrap] (Suc (Suc (Suc k))) (\<lambda>k. []) cmd
                \<lparr>rc_shell = s1, rc_sz = sz, rc_old = history s ! nat (histInd s), rc_entry = Ptr (brk s)\<rparr>"
          using inside assms Some Inr len fits
          by (simp add: recordcmd_body_def Let_def s1_def block_def)
        have rec: "recordcmd cmd sz s =
              (case free_str (history s ! nat (histInd s)) s1 of
                 Inl f \<Rightarrow> Inl f
               | Inr s2 \<Rightarrow> Inr (s2\<lparr>history := (history s2)[nat (histInd s2) := Ptr (brk s)],
                        histInd := (if histInd s2 + 1 > HISTORY_SIZE - 1 then 0 else histInd s2 + 1)\<rparr>))"
          using inside Some Inr fits unfolding swap [symmetric]
          by (simp add: recordcmd_def Let_def block_def split: sum.splits)
        show ?thesis
        proof (cases "free_str (history s ! nat (histInd s)) s1")
          case (Inl f)
          then show ?thesis unfolding three rec by simp
        next
          case s2: (Inr s2)
          then have h2: "histInd s2 = histInd s"
            by (auto simp: free_str_def s1_def split: ptr.splits option.splits)
          with inside s2 show ?thesis unfolding three rec
            by (simp add: Let_def HISTORY_SIZE_def)
        qed
      qed
    qed
  qed
qed


lemma main_open_cases:
  "main_open r s = Inr (Inl st) \<Longrightarrow>
     \<not> (r > 1 \<and> interrupted s = 0) \<and> st = Continue (s\<lparr>interrupted := 0, out := out s @ SHELL_PROMPT\<rparr>)"
  "main_open r s = Inr (Inr fr) \<Longrightarrow>
     r > 1 \<and> interrupted s = 0 \<and>
     (\<exists>bs newline. strs s buff = Some bs \<and> strchr bs LF = Inr newline \<and>
        fr = \<lparr>rc_shell = s\<lparr>strs := (strs s)(buff :=
                  Some (case newline of None \<Rightarrow> bs | Some k \<Rightarrow> bs[k := Some NUL]))\<rparr>,
              rc_sz = r, rc_old = Uninit, rc_entry = Uninit\<rparr>)"
  by (auto simp: main_open_def Let_def split: if_splits option.splits sum.splits)

lemma main_enter_cases:
  "main_enter input s = Inr (Inl (Continue s')) \<Longrightarrow>
     main_open (fst (read_stdin input s)) (snd (read_stdin input s)) = Inr (Inl (Continue s'))"
  "main_enter input s = Inr (Inr fr) \<Longrightarrow>
     main_open (fst (read_stdin input s)) (snd (read_stdin input s)) = Inr (Inr fr)"
  by (auto simp: main_enter_def split: prod.splits if_splits sum.splits)

lemma main_enter_skip_frame:
  assumes "main_enter input s = Inr (Inl (Continue s'))"
  shows "hist_frame s s'"
proof -
  have "hist_frame s (snd (read_stdin input s))"
    by (rule read_stdin_frame [of input s "fst (read_stdin input s)"]) simp
  moreover from main_open_cases(1) [OF main_enter_cases(1) [OF assms]]
  have "hist_frame (snd (read_stdin input s)) s'" by (simp add: hist_frame_def)
  ultimately show ?thesis by (rule hist_frame_trans)
qed

lemma main_enter_frame:
  assumes "main_enter input s = Inr (Inr fr)"
  shows "hist_frame s (rc_shell fr) \<and> brk (rc_shell fr) = brk s \<and>
         rc_sz fr = fst (read_stdin input s) \<and> rc_sz fr > 1"
proof -
  have "hist_frame s (snd (read_stdin input s))"
    by (rule read_stdin_frame [of input s "fst (read_stdin input s)"]) simp
  moreover have "brk (snd (read_stdin input s)) = brk s"
    by (simp add: read_stdin_def Let_def split: option.splits)
  moreover note main_open_cases(2) [OF main_enter_cases(2) [OF assms]]
  ultimately show ?thesis by (auto simp: hist_frame_def)
qed

lemma rc_run_effect:
  assumes ok: "hist_ok (rc_shell fr0)"
    and run: "rc_run sts k sigs buff fr0 = Some (Inr fr)" and sts: "sts = recordcmd_body"
  shows "\<exists>s2. recordcmd buff (rc_sz fr0) (rc_shell fr0) = Inr s2 \<and> same_hist s2 (rc_shell fr)"
proof -
  from rc_run_same [OF same_frame_refl run] obtain b where
    b: "rc_run sts k (\<lambda>k. []) buff fr0 = Some (Inr b)" "same_frame fr b" by blast
  from ok have nb: "buff \<noteq> brk (rc_shell fr0)" by (auto simp: hist_ok_def)
  have fr0: "fr0 = \<lparr>rc_shell = rc_shell fr0, rc_sz = rc_sz fr0, rc_old = rc_old fr0, rc_entry = rc_entry fr0\<rparr>"
    by simp
  from b(1) recordcmd_refined [OF nb, of k "rc_sz fr0" "rc_old fr0" "rc_entry fr0"]
  obtain s2 where "recordcmd buff (rc_sz fr0) (rc_shell fr0) = Inr s2" "rc_shell b = s2"
    unfolding sts by (subst (asm) fr0) (auto split: sum.splits)
  with b(2) show ?thesis by (auto simp: same_frame_def same_hist_def)
qed

lemma main_round_Continue:
  assumes "main_round input f w sigs s = Some (Inr (Continue s'))"
  shows "main_enter input s = Inr (Inl (Continue s')) \<or>
         (\<exists>fr0 fr s2 ret s3 n s4.
            main_enter input s = Inr (Inr fr0) \<and>
            rc_run recordcmd_body 0 sigs buff fr0 = Some (Inr fr) \<and>
            handle_sigs (sigs 7) (rc_shell fr) = Some (Inr s2) \<and>
            execcmd f w buff s2 = Some (Inr (Returned ret s3 n)) \<and>
            handle_sigs (sigs 8) s3 = Some (Inr s4) \<and>
            s' = s4\<lparr>interrupted := 0, out := out s4 @ SHELL_PROMPT\<rparr>)"
proof (cases "main_enter input s")
  case (Inl f)
  with assms show ?thesis by (simp add: main_round_def)
next
  case (Inr x)
  show ?thesis
  proof (cases x)
    case (Inl st)
    with assms Inr show ?thesis by (simp add: main_round_def)
  next
    case fr0: (Inr fr0)
    with assms Inr obtain fr where fr: "rc_run recordcmd_body 0 sigs buff fr0 = Some (Inr fr)"
      "main_close f w sigs (rc_shell fr) = Some (Inr (Continue s'))"
      by (auto simp: main_round_def split: option.splits sum.splits)
    from fr(2) obtain s2 where s2: "handle_sigs (sigs 7) (rc_shell fr) = Some (Inr s2)"
      by (auto simp: main_close_def split: option.splits sum.splits)
    with fr(2) obtain ret s3 n where s3: "execcmd f w buff s2 = Some (Inr (Returned ret s3 n))"
      by (auto simp: main_close_def split: option.splits sum.splits exec.splits)
    with fr(2) s2 obtain s4 where "handle_sigs (sigs 8) s3 = Some (Inr s4)"
      "s' = s4\<lparr>interrupted := 0, out := out s4 @ SHELL_PROMPT\<rparr>"
      by (auto simp: main_close_def split: option.splits sum.splits)
    with Inr fr0 fr(1) s2 s3 show ?thesis by blast
  qed
qed

lemma main_round_ok:
  assumes ok: "hist_ok s" and "main_round input f w sigs s = Some (Inr (Continue s'))"
  shows "hist_ok s'"
  using main_round_Continue [OF assms(2)]
proof (elim disjE exE conjE)
  assume "main_enter input s = Inr (Inl (Continue s'))"
  then have "hist_frame s s'" by (rule main_enter_skip_frame)
  with ok show ?thesis by (rule hist_frame_ok)
next
  fix fr0 fr s2 ret s3 n s4
  assume a: "main_enter input s = Inr (Inr fr0)"
    "rc_run recordcmd_body 0 sigs buff fr0 = Some (Inr fr)"
    "handle_sigs (sigs 7) (rc_shell fr) = Some (Inr s2)"
    "execcmd f w buff s2 = Some (Inr (Returned ret s3 n))"
    "handle_sigs (sigs 8) s3 = Some (Inr s4)"
    "s' = s4\<lparr>interrupted := 0, out := out s4 @ SHELL_PROMPT\<rparr>"
  from main_enter_frame [OF a(1)] ok have ok0: "hist_ok (rc_shell fr0)"
    using hist_frame_ok by blast
  from rc_run_effect [OF ok0 a(2) refl] obtain t where
    t: "recordcmd buff (rc_sz fr0) (rc_shell fr0) = Inr t" "same_hist t (rc_shell fr)" by blast
  from recordcmd_effect [OF ok0 t(1)] have "hist_ok t" by blast
  with t(2) have "hist_ok (rc_shell fr)" using hist_frame_ok same_hist_frame by blast
  moreover from a(3) have "hist_frame (rc_shell fr) s2"
    using handle_sigs_same same_hist_frame by blast
  ultimately have "hist_ok s2" by (rule hist_frame_ok)
  moreover have "hist_frame s2 s3" using a(4) by (rule execcmd_frame)
  ultimately have "hist_ok s3" by (rule hist_frame_ok)
  moreover from a(5) have "hist_frame s3 s4" using handle_sigs_same same_hist_frame by blast
  ultimately have "hist_ok s4" by (rule hist_frame_ok)
  moreover have "hist_frame s4 s'" using a(6) by (simp add: hist_frame_def)
  ultimately show ?thesis by (rule hist_frame_ok)
qed

lemma reachable_hist_ok: "reachable s \<Longrightarrow> hist_ok s"
proof (induction rule: reachable.induct)
  case start
  show ?case by (rule hist_ok_init)
next
  case (round s input fork_ret waits sigs s')
  then show ?case using main_round_ok by blast
next
  case (signal s sig openIndex0 exited s')
  then show ?case using sig_handler_frame hist_frame_ok by blast
qed




section \<open>The cursor of the history\<close>















section \<open>Recording before dispatch\<close>

lemma main_enter_line:
  assumes bs0: "strs s buff = Some bs0" and ni: "interrupted s = 0"
    and line: "line \<noteq> []" "NUL \<notin> set line" "LF \<notin> set line" "length line < buffSize"
  shows "main_enter (Some (line @ [LF])) s =
           Inr (Inr \<lparr>rc_shell = s\<lparr>strs := (strs s)(buff :=
                         Some (map Some line @ Some NUL # drop (Suc (length line)) bs0))\<rparr>,
                     rc_sz = int (length line) + 1, rc_old = Uninit, rc_entry = Uninit\<rparr>)"
proof -
  have sc: "strchr (map Some line @ Some LF # drop (Suc (length line)) bs0) LF = Inr (Some (length line))"
    using line(3,2) by (rule strchr_found)
  have upd: "(map Some line @ Some LF # drop (Suc (length line)) bs0)[length line := Some NUL] =
             map Some line @ Some NUL # drop (Suc (length line)) bs0"
    by (simp add: list_update_append)
  from line(1) have pos: "int (length line) + 1 > 1" by simp
  show ?thesis
    using bs0 ni line(4) pos
    by (simp add: main_enter_def main_open_def read_stdin_def Let_def sc upd)
qed

lemma main_enter_skipped:
  assumes "\<not> (interrupted s = 0 \<and> line \<noteq> [])" and "length line < buffSize"
  shows "main_enter (Some (line @ [LF])) s =
           Inr (Inl (Continue ((snd (read_stdin (Some (line @ [LF])) s))
                     \<lparr>interrupted := 0,
                      out := out (snd (read_stdin (Some (line @ [LF])) s)) @ SHELL_PROMPT\<rparr>)))"
  using assms
  by (auto simp: main_enter_def main_open_def read_stdin_def Let_def)

lemma rc_run_records_line:
  assumes ok: "hist_ok s0" and cmd: "strs s0 buff = Some bs" "c_str bs = Inr line"
    and run: "rc_run recordcmd_body 0 sigs buff \<lparr>rc_shell = s0, rc_sz = sz, rc_old = p, rc_entry = e\<rparr> = Some (Inr fr)"
  shows "hist_ok (rc_shell fr) \<and>
         history (rc_shell fr) ! nat (histInd s0) = Ptr (brk s0) \<and>
         (\<exists>bl. strs (rc_shell fr) (brk s0) = Some bl \<and> c_str bl = Inr line) \<and>
         strs (rc_shell fr) buff = Some bs \<and>
         print_slot (rc_shell fr) (histInd s0) = Inr (line @ [LF]) \<and>
         histInd (rc_shell fr) = (histInd s0 + 1) mod HISTORY_SIZE"
proof -
  from rc_run_effect [OF _ run refl] ok obtain t where
    t: "recordcmd buff sz s0 = Inr t" "same_hist t (rc_shell fr)" by auto
  from recordcmd_effect [OF ok t(1)] cmd
  have eff: "hist_ok t" "histInd t = (histInd s0 + 1) mod HISTORY_SIZE"
    "history t ! nat (histInd s0) = Ptr (brk s0)"
    "\<exists>bl. strs t (brk s0) = Some bl \<and> c_str bl = Inr line"
    "print_slot t (histInd s0) = Inr (line @ [LF])"
    "strs t buff = Some bs"
    by auto
  from t(2) have f: "hist_frame t (rc_shell fr)" by (rule same_hist_frame)
  have "print_slot (rc_shell fr) (histInd s0) = print_slot t (histInd s0)"
    using eff(1) f by (rule hist_frame_print_slot)
  moreover have "hist_ok (rc_shell fr)" using eff(1) f by (rule hist_frame_ok)
  ultimately show ?thesis using eff t(2) by (simp add: same_hist_def)
qed

text \<open>
  C9.  The claim: every line entered is copied into the history before \<^verbatim>\<open>execcmd\<close> cuts
  the buffer into tokens, and the entry equals the line.  With the shell at the top of its
  loop, for a line shorter than the buffer that \<^verbatim>\<open>read\<close> delivers alone with its line
  feed: when \<^verbatim>\<open>interrupted\<close> is clear and the line is not empty, \<^verbatim>\<open>main\<close> calls
  \<^verbatim>\<open>recordcmd\<close>, which returns when no signal is handled; whenever it returns, whatever
  signals were handled at its steps, the entry under the old cursor is a fresh block, not
  the buffer, which holds the line without its line feed, and the buffer still holds the
  line whole; and when the round comes back to the prompt, \<^verbatim>\<open>execcmd\<close> having cut the
  buffer into tokens, the entry still holds the line.  Otherwise, the flag set or the line
  empty, the round goes to the prompt with the history as it was: the line is neither
  recorded nor cut into tokens.
\<close>

theorem history_entry_is_line_entered:
  assumes "reachable s" and "NUL \<notin> set line" and "LF \<notin> set line" and "length line < buffSize"
  shows "if interrupted s = 0 \<and> line \<noteq> []
         then \<exists>fr0. main_enter (Some (line @ [LF])) s = Inr (Inr fr0) \<and>
                (\<exists>fr. rc_run recordcmd_body 0 (\<lambda>k. []) buff fr0 = Some (Inr fr)) \<and>
                (\<forall>sigs fr. rc_run recordcmd_body 0 sigs buff fr0 = Some (Inr fr) \<longrightarrow>
                    history (rc_shell fr) ! nat (histInd s) = Ptr (brk s) \<and> brk s \<noteq> buff \<and>
                    (\<exists>bs. strs (rc_shell fr) (brk s) = Some bs \<and> c_str bs = Inr line) \<and>
                    (\<exists>bs. strs (rc_shell fr) buff = Some bs \<and> c_str bs = Inr line)) \<and>
                (\<forall>fork_ret waits sigs s'.
                    main_round (Some (line @ [LF])) fork_ret waits sigs s = Some (Inr (Continue s')) \<longrightarrow>
                    history s' ! nat (histInd s) = Ptr (brk s) \<and>
                    (\<exists>bs. strs s' (brk s) = Some bs \<and> c_str bs = Inr line) \<and>
                    print_slot s' (histInd s) = Inr (line @ [LF]) \<and>
                    histInd s' = (histInd s + 1) mod HISTORY_SIZE)
         else history (snd (read_stdin (Some (line @ [LF])) s)) = history s \<and>
              histInd (snd (read_stdin (Some (line @ [LF])) s)) = histInd s \<and>
              (\<forall>fork_ret waits sigs.
                  main_round (Some (line @ [LF])) fork_ret waits sigs s =
                    Some (Inr (Continue ((snd (read_stdin (Some (line @ [LF])) s))
                       \<lparr>interrupted := 0,
                        out := out (snd (read_stdin (Some (line @ [LF])) s)) @ SHELL_PROMPT\<rparr>))))"
proof (cases "interrupted s = 0 \<and> line \<noteq> []")
  case True
  from assms(1) have ok: "hist_ok s" by (rule reachable_hist_ok)
  then obtain bs0 where bs0: "strs s buff = Some bs0" by (auto simp: hist_ok_def)
  from ok have nb: "brk s \<noteq> buff" by (auto simp: hist_ok_def)
  define bs1 where "bs1 = map Some line @ Some NUL # drop (Suc (length line)) bs0"
  define s0 where "s0 = s\<lparr>strs := (strs s)(buff := Some bs1)\<rparr>"
  define fr0 where "fr0 = \<lparr>rc_shell = s0, rc_sz = int (length line) + 1, rc_old = Uninit, rc_entry = Uninit\<rparr>"
  have me: "main_enter (Some (line @ [LF])) s = Inr (Inr fr0)"
    unfolding fr0_def s0_def bs1_def using bs0 True assms(2,3,4) by (intro main_enter_line) simp_all
  have "hist_frame s s0" by (simp add: s0_def hist_frame_def)
  with ok have ok0: "hist_ok s0" by (rule hist_frame_ok)
  have same: "histInd s0 = histInd s" "brk s0 = brk s" by (simp_all add: s0_def)
  have sb: "strs s0 buff = Some bs1" by (simp add: s0_def)
  have cs: "c_str bs1 = Inr line" unfolding bs1_def using assms(2) by (rule c_str_store)
  from recordcmd_succeeds [OF ok0 sb cs, of "int (length line) + 1"] obtain t where
    t: "recordcmd buff (int (length line) + 1) s0 = Inr t" by auto
  from ok0 have "buff \<noteq> brk s0" by (auto simp: hist_ok_def)
  from recordcmd_refined [OF this, of 0 "int (length line) + 1" Uninit Uninit] t
  have quiet: "\<exists>fr. rc_run recordcmd_body 0 (\<lambda>k. []) buff fr0 = Some (Inr fr)"
    by (simp add: fr0_def)
  have rec: "hist_ok (rc_shell fr) \<and>
         history (rc_shell fr) ! nat (histInd s) = Ptr (brk s) \<and>
         (\<exists>bl. strs (rc_shell fr) (brk s) = Some bl \<and> c_str bl = Inr line) \<and>
         strs (rc_shell fr) buff = Some bs1 \<and>
         print_slot (rc_shell fr) (histInd s) = Inr (line @ [LF]) \<and>
         histInd (rc_shell fr) = (histInd s + 1) mod HISTORY_SIZE"
    if "rc_run recordcmd_body 0 sigs buff fr0 = Some (Inr fr)" for sigs fr
    using rc_run_records_line [OF ok0 sb cs that [unfolded fr0_def]] same by simp
  have round: "history s' ! nat (histInd s) = Ptr (brk s) \<and>
         (\<exists>bs. strs s' (brk s) = Some bs \<and> c_str bs = Inr line) \<and>
         print_slot s' (histInd s) = Inr (line @ [LF]) \<and>
         histInd s' = (histInd s + 1) mod HISTORY_SIZE"
    if "main_round (Some (line @ [LF])) fork_ret waits sigs s = Some (Inr (Continue s'))"
    for fork_ret waits sigs s'
  proof -
    have "main_enter (Some (line @ [LF])) s \<noteq> Inr (Inl (Continue s'))" unfolding me by simp
    with main_round_Continue [OF that] obtain fr0' fr s2 ret s3 n s4 where
      e: "main_enter (Some (line @ [LF])) s = Inr (Inr fr0')" and
      a': "rc_run recordcmd_body 0 sigs buff fr0' = Some (Inr fr)" and
      a2: "handle_sigs (sigs 7) (rc_shell fr) = Some (Inr s2)"
        "execcmd fork_ret waits buff s2 = Some (Inr (Returned ret s3 n))"
        "handle_sigs (sigs 8) s3 = Some (Inr s4)"
        "s' = s4\<lparr>interrupted := 0, out := out s4 @ SHELL_PROMPT\<rparr>"
      by blast
    from e have "fr0' = fr0" unfolding me by simp
    with a' have a1: "rc_run recordcmd_body 0 sigs buff fr0 = Some (Inr fr)" by simp
    note a = a1 a2
    note r = rec [OF a(1)]
    from a(2) have "hist_frame (rc_shell fr) s2" using handle_sigs_same same_hist_frame by blast
    moreover have "hist_frame s2 s3" using a(3) by (rule execcmd_frame)
    moreover from a(4) have "hist_frame s3 s4" using handle_sigs_same same_hist_frame by blast
    moreover have "hist_frame s4 s'" using a(5) by (simp add: hist_frame_def)
    ultimately have f: "hist_frame (rc_shell fr) s'" using hist_frame_trans by blast
    from f nb have "strs s' (brk s) = strs (rc_shell fr) (brk s)" "history s' = history (rc_shell fr)"
      "histInd s' = histInd (rc_shell fr)"
      by (simp_all add: hist_frame_def)
    moreover have "print_slot s' (histInd s) = print_slot (rc_shell fr) (histInd s)"
      using r f by (intro hist_frame_print_slot) simp_all
    ultimately show ?thesis using r by simp
  qed
  have body: "main_enter (Some (line @ [LF])) s = Inr (Inr fr0) \<and>
        (\<exists>fr. rc_run recordcmd_body 0 (\<lambda>k. []) buff fr0 = Some (Inr fr)) \<and>
        (\<forall>sigs fr. rc_run recordcmd_body 0 sigs buff fr0 = Some (Inr fr) \<longrightarrow>
            history (rc_shell fr) ! nat (histInd s) = Ptr (brk s) \<and> brk s \<noteq> buff \<and>
            (\<exists>bs. strs (rc_shell fr) (brk s) = Some bs \<and> c_str bs = Inr line) \<and>
            (\<exists>bs. strs (rc_shell fr) buff = Some bs \<and> c_str bs = Inr line)) \<and>
        (\<forall>fork_ret waits sigs s'.
            main_round (Some (line @ [LF])) fork_ret waits sigs s = Some (Inr (Continue s')) \<longrightarrow>
            history s' ! nat (histInd s) = Ptr (brk s) \<and>
            (\<exists>bs. strs s' (brk s) = Some bs \<and> c_str bs = Inr line) \<and>
            print_slot s' (histInd s) = Inr (line @ [LF]) \<and>
            histInd s' = (histInd s + 1) mod HISTORY_SIZE)"
  proof (intro conjI allI impI)
    show "main_enter (Some (line @ [LF])) s = Inr (Inr fr0)" by (rule me)
    show "\<exists>fr. rc_run recordcmd_body 0 (\<lambda>k. []) buff fr0 = Some (Inr fr)" by (rule quiet)
  next
    fix sigs fr assume run: "rc_run recordcmd_body 0 sigs buff fr0 = Some (Inr fr)"
    note r = rec [OF run]
    from r show "history (rc_shell fr) ! nat (histInd s) = Ptr (brk s)" by simp
    show "brk s \<noteq> buff" by (rule nb)
    from r show "\<exists>bs. strs (rc_shell fr) (brk s) = Some bs \<and> c_str bs = Inr line" by simp
    from r cs show "\<exists>bs. strs (rc_shell fr) buff = Some bs \<and> c_str bs = Inr line" by simp
  next
    fix fork_ret waits sigs s'
    assume "main_round (Some (line @ [LF])) fork_ret waits sigs s = Some (Inr (Continue s'))"
    note r = round [OF this]
    from r show "history s' ! nat (histInd s) = Ptr (brk s)" by simp
    from r show "\<exists>bs. strs s' (brk s) = Some bs \<and> c_str bs = Inr line" by simp
    from r show "print_slot s' (histInd s) = Inr (line @ [LF])" by simp
    from r show "histInd s' = (histInd s + 1) mod HISTORY_SIZE" by simp
  qed
  show ?thesis unfolding if_P [OF True] by (rule exI [of _ fr0]) (rule body)
next
  case False
  define s1 where "s1 = snd (read_stdin (Some (line @ [LF])) s)"
  have i1: "history s1 = history s" "histInd s1 = histInd s"
    by (simp_all add: s1_def read_stdin_def Let_def)
  have "main_round (Some (line @ [LF])) fork_ret waits sigs s =
          Some (Inr (Continue (s1\<lparr>interrupted := 0, out := out s1 @ SHELL_PROMPT\<rparr>)))"
    for fork_ret waits sigs
    unfolding main_round_def main_enter_skipped [OF False assms(4)] s1_def by simp
  then have "\<forall>fork_ret waits sigs. main_round (Some (line @ [LF])) fork_ret waits sigs s =
          Some (Inr (Continue (s1\<lparr>interrupted := 0, out := out s1 @ SHELL_PROMPT\<rparr>)))"
    by (intro allI)
  with i1 have "history s1 = history s \<and> histInd s1 = histInd s \<and>
      (\<forall>fork_ret waits sigs. main_round (Some (line @ [LF])) fork_ret waits sigs s =
          Some (Inr (Continue (s1\<lparr>interrupted := 0, out := out s1 @ SHELL_PROMPT\<rparr>))))"
    by (intro conjI)
  then show ?thesis unfolding if_not_P [OF False] s1_def .
qed

theorem history_entry_is_line_entered_witness:
  "(\<exists>s'. main_round (Some (''ls -l'' @ [LF])) 7 (\<lambda>n. 7)
            (\<lambda>k. if k = 4 then [(SIGCHLD, 0, [])] else []) shell_init = Some (Inr (Continue s')) \<and>
        history s' ! 0 = Ptr 1 \<and>
        (\<exists>bs. strs s' 1 = Some bs \<and> c_str bs = Inr ''ls -l'') \<and>
        (\<exists>bs. strs s' buff = Some bs \<and> c_str bs = Inr ''ls'')) \<and>
   main_round (Some [LF]) 7 (\<lambda>n. 7) (\<lambda>k. []) shell_init =
     Some (Inr (Continue (shell_init
       \<lparr>strs := (strs shell_init)(buff := Some (Some LF # replicate 63 None)),
        out := SHELL_PROMPT\<rparr>)))"
proof -
  have w: "wait_loop 7 (\<lambda>n. 7) 0 = Some (Suc 0)"
    by (rule wait_loop_found) simp_all
  have "\<exists>s'. main_round (Some (''ls -l'' @ [LF])) 7 (\<lambda>n. 7)
            (\<lambda>k. if k = 4 then [(SIGCHLD, 0, [])] else []) shell_init = Some (Inr (Continue s')) \<and>
        (\<exists>bs. strs s' buff = Some bs \<and> c_str bs = Inr ''ls'')"
    by (simp add: main_round_def main_enter_def main_open_def main_close_def recordcmd_body_def
        sig_handler_def SIGCHLD_def SIGINT_def dispatch_defs w)
  then obtain s' where s': "main_round (Some (''ls -l'' @ [LF])) 7 (\<lambda>n. 7)
            (\<lambda>k. if k = 4 then [(SIGCHLD, 0, [])] else []) shell_init = Some (Inr (Continue s'))"
    "\<exists>bs. strs s' buff = Some bs \<and> c_str bs = Inr ''ls''" by blast
  have i: "interrupted shell_init = 0" "histInd shell_init = 0" "brk shell_init = 1"
    by (simp_all add: shell_init_def)
  from history_entry_is_line_entered [OF reachable.start, of "''ls -l''"] i s'(1)
  have "history s' ! 0 = Ptr 1 \<and> (\<exists>bs. strs s' 1 = Some bs \<and> c_str bs = Inr ''ls -l'')"
    by (auto simp: buffSize_def)
  moreover from history_entry_is_line_entered [OF reachable.start, of "[]"]
  have "main_round (Some [LF]) 7 (\<lambda>n. 7) (\<lambda>k. []) shell_init =
     Some (Inr (Continue (shell_init
       \<lparr>strs := (strs shell_init)(buff := Some (Some LF # replicate 63 None)),
        out := SHELL_PROMPT\<rparr>)))"
    by (simp add: buffSize_def read_stdin_def shell_init_def buff_def)
  ultimately show ?thesis using s' by blast
qed

text \<open>
  C9, where the claim fails: lines that are entered and not copied.  A line read after a
  signal was handled, \<^verbatim>\<open>interrupted\<close> being set, leaves the history empty.  A line of 64
  characters fills the buffer, and \<^verbatim>\<open>strchr\<close> runs off its end.  Of two lines that one
  \<^verbatim>\<open>read\<close> delivers, only the first is recorded.  (Rounds with no signal handled.)
\<close>

theorem line_entered_not_recorded:
  "(case sig_handler SIGCHLD 0 [] shell_init of
      Some (Inr s) \<Rightarrow>
        reachable s \<and>
        (case main_step (Some (''ls'' @ [LF])) 1 int s of
           Some (Inr (Continue s')) \<Rightarrow> history s' = replicate 20 Null \<and> histInd s' = 0
         | _ \<Rightarrow> False)
    | _ \<Rightarrow> False) \<and>
   main_step (Some (''aaaaaaaaaaaaaaaaaaaaaaaaaaaaaaaaaaaaaaaaaaaaaaaaaaaaaaaaaaaaaaaa'' @ [LF]))
     1 int shell_init = Some (Inl OutOfBounds) \<and>
   (case main_step (Some (''ls'' @ [LF] @ ''pwd'' @ [LF])) 1 int shell_init of
      Some (Inr (Continue s')) \<Rightarrow>
        history s' = (replicate 20 Null)[0 := Ptr 1] \<and> print_slot s' 0 = Inr (''ls'' @ [LF]) \<and>
        histInd s' = 1
    | _ \<Rightarrow> False)"
proof -
  have h: "sig_handler SIGCHLD 0 [] shell_init = Some (Inr (shell_init\<lparr>interrupted := 1\<rparr>))"
    by (simp add: sig_handler_def SIGCHLD_def SIGINT_def)
  from reachable.signal [OF reachable.start h]
  have r: "reachable (shell_init\<lparr>interrupted := 1\<rparr>)" .
  have a: "case main_step (Some (''ls'' @ [LF])) 1 int (shell_init\<lparr>interrupted := 1\<rparr>) of
           Some (Inr (Continue s')) \<Rightarrow> history s' = replicate 20 Null \<and> histInd s' = 0
         | _ \<Rightarrow> False"
    by (simp add: dispatch_defs)
  have b: "main_step (Some (''aaaaaaaaaaaaaaaaaaaaaaaaaaaaaaaaaaaaaaaaaaaaaaaaaaaaaaaaaaaaaaaa'' @ [LF]))
     1 int shell_init = Some (Inl OutOfBounds)"
    by (simp add: dispatch_defs)
  have w: "wait_loop 1 int 0 = Some (Suc 1)"
    by (rule wait_loop_found) auto
  have c: "case main_step (Some (''ls'' @ [LF] @ ''pwd'' @ [LF])) 1 int shell_init of
      Some (Inr (Continue s')) \<Rightarrow>
        history s' = (replicate 20 Null)[0 := Ptr 1] \<and> print_slot s' 0 = Inr (''ls'' @ [LF]) \<and>
        histInd s' = 1
    | _ \<Rightarrow> False"
    by (simp add: dispatch_defs print_slot_def w)
  from r a b c show ?thesis unfolding h by simp
qed

end
